theory Spec2Isabelle
  imports Complex_Main "HOL-Library.Sublist"
begin

section \<open>Values, exceptions and the external collaborators\<close>

text \<open>
  The service in \<^verbatim>\<open>web.py\<close> moves Python objects around without inspecting them: the
  prompt, the three generation parameters and the five components of a token event.
  They are modelled by a small universe of Python values. A float is kept as the
  rational its literal denotes; the program never computes with one.
\<close>

datatype pyval =
    PNone
  | PBool bool
  | PInt int
  | PFloat rat
  | PStr string
  | PList "pyval list"
  | PDict "(string \<times> pyval) list"

text \<open>
  Every exception the handlers can meet. \<open>EngineFailure\<close> stands for whatever the
  Generation Engine raises, \<open>BroadcastFailure\<close> for whatever
  \<^verbatim>\<open>dist.broadcast_object_list\<close> raises, \<open>SendFailure\<close> for a failed
  \<^verbatim>\<open>websocket.send_text\<close>, \<open>Cancelled\<close> for the cancellation of a response generator
  whose client has gone.
\<close>

datatype exn =
    KeyError string
  | TypeError
  | IndexError
  | JSONDecodeError
  | WebSocketDisconnect
  | SendFailure
  | Cancelled
  | EngineFailure string
  | BroadcastFailure string

text \<open>The keyword arguments of one Generation Engine call
  (\<^verbatim>\<open>probs_stream\<close> on the leader, \<^verbatim>\<open>generate\<close> on a follower).\<close>

record engine_args =
  prompt :: pyval
  max_gen_len :: pyval
  temperature :: pyval
  top_p :: pyval

text \<open>One item of \<^verbatim>\<open>generator.probs_stream\<close>: the tuple
  \<^verbatim>\<open>(token, word, prob, place, top5)\<close>.\<close>

record tokev =
  token :: pyval
  word :: pyval
  prob :: pyval
  place :: pyval
  top5 :: pyval

text \<open>
  The Generation Engine is external. On the leader it is a generator: it yields a finite
  list of token events and then either is exhausted (\<open>None\<close>) or raises (\<open>Some e\<close>).
  On a follower the call returns or raises.
\<close>

type_synonym probs_stream = "engine_args \<Rightarrow> tokev list \<times> exn option"

type_synonym engine_generate = "engine_args \<Rightarrow> exn option"

text \<open>\<^verbatim>\<open>json.dumps\<close> is external too and is a parameter \<open>dumps\<close> of the handlers.\<close>

type_synonym json_dumps = "pyval \<Rightarrow> string"

text \<open>
  The argument of \<^verbatim>\<open>json.dumps\<close> in both handlers: the dict
  \<^verbatim>\<open>{"token": token, "word": word, "probability": prob, "place": place, "top5": top5}\<close>.
\<close>

definition event_dict :: "tokev \<Rightarrow> pyval" where
  "event_dict ev =
     PDict [(''token'', token ev), (''word'', word ev), (''probability'', prob ev),
            (''place'', place ev), (''top5'', top5 ev)]"

definition event_frame :: "json_dumps \<Rightarrow> tokev \<Rightarrow> string" where
  "event_frame dumps ev = dumps (event_dict ev)"

section \<open>The Broadcast Channel\<close>

text \<open>
  The list the leader hands to \<^verbatim>\<open>dist.broadcast_object_list\<close> in both handlers:
  \<^verbatim>\<open>[text, 100028, 0.7, 1]\<close>.
\<close>

definition leader_command :: "pyval \<Rightarrow> pyval list" where
  "leader_command text = [text, PInt 100028, PFloat (7 / 10), PInt 1]"

text \<open>The keyword arguments of the leader's own call:
  \<^verbatim>\<open>probs_stream(text, max_gen_len=100028, temperature=0.7, top_p=1)\<close>.\<close>

definition leader_args :: "pyval \<Rightarrow> engine_args" where
  "leader_args text =
     \<lparr>prompt = text, max_gen_len = PInt 100028, temperature = PFloat (7 / 10),
      top_p = PInt 1\<rparr>"

text \<open>
  Modelled from the spec: \<^verbatim>\<open>torch.distributed.broadcast_object_list\<close> is not part of
  the repository. The spec describes the Broadcast Channel as a one-to-all transfer in
  which every rank that calls it receives the value rank 0 sent; a receiving rank's list
  \<open>config\<close> is overwritten in place with the list \<open>sent\<close> by the leader.
\<close>

definition broadcast_recv :: "pyval list \<Rightarrow> pyval list \<Rightarrow> pyval list" where
  "broadcast_recv sent config = sent"

text \<open>Python's \<^verbatim>\<open>config[i]\<close> on a list: \<^verbatim>\<open>IndexError\<close> out of range.\<close>

definition getitem :: "pyval list \<Rightarrow> nat \<Rightarrow> exn + pyval" where
  "getitem xs i = (if i < length xs then Inr (xs ! i) else Inl IndexError)"

section \<open>The follower loop\<close>

text \<open>
  What a follower keeps between iterations of \<^verbatim>\<open>while True\<close>: nothing of its own.
  The record holds what an observer of the process can see: the engine calls it has
  made, the lines it has written to its log or standard output, and the number of
  iterations it has gone through.
\<close>

record follower =
  engine_calls :: "engine_args list"
  log_lines :: "string list"
  iterations :: nat

definition follower_init :: follower where
  "follower_init = \<lparr>engine_calls = [], log_lines = [], iterations = 0\<rparr>"

text \<open>What the Broadcast Channel does at one call of a follower: it raises, or it
  delivers the list the leader sent.\<close>

datatype bcast_event = BcastRaises exn | BcastDelivers "pyval list"

text \<open>
  The body of the \<^verbatim>\<open>try\<close> block: the broadcast, then the four subscripts and the
  engine call. The result is the exception that leaves the block, if any.
\<close>

definition follower_try :: "engine_generate \<Rightarrow> bcast_event \<Rightarrow> follower \<Rightarrow> follower \<times> exn option" where
  "follower_try gen b st =
     (let config = replicate 4 PNone in
      case b of
        BcastRaises e \<Rightarrow> (st, Some e)
      | BcastDelivers sent \<Rightarrow>
          (let config = broadcast_recv sent config in
           case getitem config 0 of Inl e \<Rightarrow> (st, Some e) | Inr c0 \<Rightarrow>
           case getitem config 1 of Inl e \<Rightarrow> (st, Some e) | Inr c1 \<Rightarrow>
           case getitem config 2 of Inl e \<Rightarrow> (st, Some e) | Inr c2 \<Rightarrow>
           case getitem config 3 of Inl e \<Rightarrow> (st, Some e) | Inr c3 \<Rightarrow>
             (let a = \<lparr>prompt = c0, max_gen_len = c1, temperature = c2, top_p = c3\<rparr>
              in (st\<lparr>engine_calls := engine_calls st @ [a]\<rparr>, gen a))))"

text \<open>One iteration: the \<^verbatim>\<open>try\<close> block, then \<^verbatim>\<open>except: pass\<close>, which catches every
  exception and does nothing.\<close>

definition follower_step :: "engine_generate \<Rightarrow> bcast_event \<Rightarrow> follower \<Rightarrow> follower" where
  "follower_step gen b st =
     (case follower_try gen b st of
        (st', None) \<Rightarrow> st'\<lparr>iterations := iterations st' + 1\<rparr>
      | (st', Some e) \<Rightarrow> st'\<lparr>iterations := iterations st' + 1\<rparr>)"

text \<open>
  The loop never returns. It is run against the finite list of what the Broadcast
  Channel has done so far; when the list is used up the follower is blocked in its next
  \<^verbatim>\<open>broadcast_object_list\<close>.
\<close>

fun follower_loop :: "engine_generate \<Rightarrow> bcast_event list \<Rightarrow> follower \<Rightarrow> follower" where
  "follower_loop gen [] st = st"
| "follower_loop gen (b # bs) st = follower_loop gen bs (follower_step gen b st)"

section \<open>The WebSocket handler \<^verbatim>\<open>generate_ws\<close>\<close>

text \<open>What one \<^verbatim>\<open>await websocket.receive_text()\<close> finds: a text frame of the client,
  or the client's disconnection, which raises.\<close>

datatype recv_result = RText string | RDisconnect

text \<open>How a handler stops early: an exception leaves it, or it stays suspended in an
  \<^verbatim>\<open>await\<close> that is never answered. \<open>None\<close> of \<open>halt option\<close> is the normal end.\<close>

datatype halt = Raises exn | Blocked

text \<open>
  The state of one WebSocket connection on the leader.
  \<^item> \<open>send_tokens\<close>, \<open>recv_tokens\<close>: the handler's two local counters;
  \<^item> \<open>inbox\<close>: what the successive \<^verbatim>\<open>receive_text\<close> calls will find, in order (the
    client's frames; when it is empty the call waits forever);
  \<^item> \<open>send_budget\<close>: how many \<^verbatim>\<open>send_text\<close> calls the connection still takes before
    one raises (\<open>None\<close>: all of them);
  \<^item> \<open>outbox\<close>: the frames sent to the client, oldest first;
  \<^item> \<open>broadcasts\<close>, \<open>ws_calls\<close>, \<open>ws_stdout\<close>, \<open>ws_closed\<close>: the lists handed to the
    Broadcast Channel, the engine calls made, the lines printed, whether
    \<^verbatim>\<open>websocket.close()\<close> was reached;
  \<^item> \<open>trail\<close>: a history variable, \<open>(line, send_tokens, recv_tokens)\<close> each time control
    passes one of the lines 143, 150, 152, 156, 158 of \<^verbatim>\<open>web.py\<close>.
\<close>

record ws_state =
  send_tokens :: int
  recv_tokens :: int
  inbox :: "recv_result list"
  send_budget :: "nat option"
  outbox :: "string list"
  broadcasts :: "pyval list list"
  ws_calls :: "engine_args list"
  ws_stdout :: "pyval list list"
  ws_closed :: bool
  trail :: "(nat \<times> int \<times> int) list"

definition ws_connect :: "recv_result list \<Rightarrow> nat option \<Rightarrow> ws_state" where
  "ws_connect frames budget =
     \<lparr>send_tokens = 0, recv_tokens = 0, inbox = frames, send_budget = budget,
      outbox = [], broadcasts = [], ws_calls = [], ws_stdout = [], ws_closed = False,
      trail = []\<rparr>"

definition visit :: "nat \<Rightarrow> ws_state \<Rightarrow> ws_state" where
  "visit l s = s\<lparr>trail := trail s @ [(l, send_tokens s, recv_tokens s)]\<rparr>"

definition receive_text :: "ws_state \<Rightarrow> (halt + string) \<times> ws_state" where
  "receive_text s =
     (case inbox s of
        [] \<Rightarrow> (Inl Blocked, s)
      | RDisconnect # rest \<Rightarrow> (Inl (Raises WebSocketDisconnect), s\<lparr>inbox := rest\<rparr>)
      | RText t # rest \<Rightarrow> (Inr t, s\<lparr>inbox := rest\<rparr>))"

definition send_text :: "string \<Rightarrow> ws_state \<Rightarrow> halt option \<times> ws_state" where
  "send_text m s =
     (case send_budget s of
        None \<Rightarrow> (None, s\<lparr>outbox := outbox s @ [m]\<rparr>)
      | Some 0 \<Rightarrow> (Some (Raises SendFailure), s)
      | Some (Suc n) \<Rightarrow> (None, s\<lparr>send_budget := Some n, outbox := outbox s @ [m]\<rparr>))"

text \<open>
  Lines 154 to 156:
  \<^verbatim>\<open>while recv_tokens < send_tokens - 10: await websocket.receive_text(); recv_tokens += 1\<close>.
  The frame read is thrown away.
\<close>

function ack_loop :: "ws_state \<Rightarrow> halt option \<times> ws_state" where
  "ack_loop s =
     (if recv_tokens s < send_tokens s - 10 then
        (case receive_text s of
           (Inl h, s1) \<Rightarrow> (Some h, s1)
         | (Inr t, s1) \<Rightarrow> ack_loop (visit 156 (s1\<lparr>recv_tokens := recv_tokens s1 + 1\<rparr>)))
      else (None, s))"
  by pat_completeness auto
termination
  by (relation "measure (\<lambda>s. length (inbox s))")
     (auto simp: receive_text_def visit_def split: list.splits recv_result.splits)

text \<open>
  Lines 146 to 158, the \<^verbatim>\<open>for\<close> loop over the engine's generator: \<open>evs\<close> are the events
  it still yields and \<open>fin\<close> says how it ends. Each round sends the frame, counts it,
  runs the acknowledgement loop and reaches \<^verbatim>\<open>await asyncio.sleep(0)\<close>.
\<close>

fun token_loop :: "json_dumps \<Rightarrow> tokev list \<Rightarrow> exn option \<Rightarrow> ws_state \<Rightarrow> halt option \<times> ws_state" where
  "token_loop dumps [] None s = (None, s)"
| "token_loop dumps [] (Some e) s = (Some (Raises e), s)"
| "token_loop dumps (ev # evs) fin s =
     (case send_text (event_frame dumps ev) (visit 150 s) of
        (Some h, s1) \<Rightarrow> (Some h, s1)
      | (None, s1) \<Rightarrow>
          (case ack_loop (visit 152 (s1\<lparr>send_tokens := send_tokens s1 + 1\<rparr>)) of
             (Some h, s2) \<Rightarrow> (Some h, s2)
           | (None, s2) \<Rightarrow> token_loop dumps evs fin (visit 158 s2)))"

text \<open>
  The handler, lines 136 to 160. \<open>bcast\<close> is the leader's side of the Broadcast Channel:
  it returns (\<open>None\<close>) or raises. \<^verbatim>\<open>websocket.accept()\<close> and \<^verbatim>\<open>websocket.close()\<close> are
  taken to succeed. Nothing in the handler catches an exception.
\<close>

definition generate_ws ::
  "json_dumps \<Rightarrow> probs_stream \<Rightarrow> (pyval list \<Rightarrow> exn option) \<Rightarrow> ws_state \<Rightarrow> halt option \<times> ws_state" where
  "generate_ws dumps engine bcast s0 =
     (case receive_text s0 of
        (Inl h, s1) \<Rightarrow> (Some h, s1)
      | (Inr t, s1) \<Rightarrow>
          (let text = PStr t in
           case bcast (leader_command text) of
             Some e \<Rightarrow> (Some (Raises e), s1)
           | None \<Rightarrow>
               (let s2 = s1\<lparr>broadcasts := broadcasts s1 @ [leader_command text]\<rparr>;
                    s3 = visit 143 (s2\<lparr>recv_tokens := 0, send_tokens := 0\<rparr>);
                    s4 = s3\<lparr>ws_stdout := ws_stdout s3 @ [[PStr ''starting stream, text:'', text]]\<rparr>;
                    s5 = s4\<lparr>ws_calls := ws_calls s4 @ [leader_args text]\<rparr>
                in case engine (leader_args text) of (evs, fin) \<Rightarrow>
                     (case token_loop dumps evs fin s5 of
                        (Some h, s6) \<Rightarrow> (Some h, s6)
                      | (None, s6) \<Rightarrow> (None, s6\<lparr>ws_closed := True\<rparr>)))))"

section \<open>The streamed-HTTP handler \<^verbatim>\<open>generate\<close>\<close>

text \<open>
  The request model \<^verbatim>\<open>Config\<close> declared on lines 110 to 114 (\<open>temperature\<close> defaults to
  0.8 and \<open>top_p\<close> to 0.95). No handler takes or builds one.
\<close>

record Config =
  prompts :: "string list"
  cfg_max_gen_len :: int
  cfg_temperature :: rat
  cfg_top_p :: rat

text \<open>What \<^verbatim>\<open>await request.json()\<close> finds: a body that does not parse, or the parsed
  JSON value.\<close>

datatype request_body = Malformed | Body pyval

definition request_json :: "request_body \<Rightarrow> exn + pyval" where
  "request_json req = (case req of Malformed \<Rightarrow> Inl JSONDecodeError | Body v \<Rightarrow> Inr v)"

text \<open>Python's \<^verbatim>\<open>body[key]\<close> with a string key: the value of a dict,
  \<^verbatim>\<open>KeyError\<close> when the key is missing, \<^verbatim>\<open>TypeError\<close> on every other value.\<close>

definition subscript :: "pyval \<Rightarrow> string \<Rightarrow> exn + pyval" where
  "subscript body key =
     (case body of
        PDict kvs \<Rightarrow> (case map_of kvs key of None \<Rightarrow> Inl (KeyError key) | Some v \<Rightarrow> Inr v)
      | _ \<Rightarrow> Inl TypeError)"

text \<open>Line 119: \<^verbatim>\<open>text = (await request.json())["text"]\<close>.\<close>

definition request_text :: "request_body \<Rightarrow> exn + pyval" where
  "request_text req =
     (case request_json req of Inl e \<Rightarrow> Inl e | Inr body \<Rightarrow> subscript body ''text'')"

text \<open>One item the response generator yields: the dict \<^verbatim>\<open>{"data": d}\<close>.\<close>

datatype sse_item = Data string

text \<open>
  The state of one streamed-HTTP request on the leader.
  \<^item> \<open>demand\<close>: how many items the \<^verbatim>\<open>EventSourceResponse\<close> still takes from the
    generator before its client has gone and the generator is cancelled (\<open>None\<close>: it
    drains the generator); a response with no item to take never starts the generator;
  \<^item> \<open>yielded\<close>: the items yielded to the response, oldest first;
  \<^item> \<open>h_broadcasts\<close>, \<open>h_calls\<close>, \<open>h_stdout\<close>: as for the WebSocket handler.
\<close>

record sse_state =
  demand :: "nat option"
  yielded :: "sse_item list"
  h_broadcasts :: "pyval list list"
  h_calls :: "engine_args list"
  h_stdout :: "pyval list list"

definition sse_connect :: "nat option \<Rightarrow> sse_state" where
  "sse_connect d = \<lparr>demand = d, yielded = [], h_broadcasts = [], h_calls = [], h_stdout = []\<rparr>"

definition yield_item :: "sse_item \<Rightarrow> sse_state \<Rightarrow> halt option \<times> sse_state" where
  "yield_item x s =
     (case demand s of
        None \<Rightarrow> (None, s\<lparr>yielded := yielded s @ [x]\<rparr>)
      | Some 0 \<Rightarrow> (Some (Raises Cancelled), s)
      | Some (Suc n) \<Rightarrow> (None, s\<lparr>demand := Some n, yielded := yielded s @ [x]\<rparr>))"

text \<open>
  Lines 123 to 130: the \<^verbatim>\<open>for\<close> loop of \<^verbatim>\<open>generate_stream\<close>, which yields one item
  per token event (and then reaches \<^verbatim>\<open>await asyncio.sleep(0)\<close>), and after the loop
  \<^verbatim>\<open>yield {"data": "<EOS>"}\<close>.
\<close>

fun stream_loop :: "json_dumps \<Rightarrow> tokev list \<Rightarrow> exn option \<Rightarrow> sse_state \<Rightarrow> halt option \<times> sse_state" where
  "stream_loop dumps [] None s = yield_item (Data ''<EOS>'') s"
| "stream_loop dumps [] (Some e) s = (Some (Raises e), s)"
| "stream_loop dumps (ev # evs) fin s =
     (case yield_item (Data (event_frame dumps ev)) s of
        (Some h, s1) \<Rightarrow> (Some h, s1)
      | (None, s1) \<Rightarrow> stream_loop dumps evs fin s1)"

text \<open>
  Lines 121 to 130: the body of the async generator \<^verbatim>\<open>generate_stream\<close>. It prints,
  calls the engine and loops. Calling \<^verbatim>\<open>generate_stream()\<close> runs none of it: the body
  starts when the generator is first iterated.
\<close>

definition generate_stream :: "json_dumps \<Rightarrow> probs_stream \<Rightarrow> pyval \<Rightarrow> sse_state \<Rightarrow> halt option \<times> sse_state" where
  "generate_stream dumps engine text s =
     (let s1 = s\<lparr>h_stdout := h_stdout s @ [[PStr ''starting stream, text:'', text]]\<rparr>;
          s2 = s1\<lparr>h_calls := h_calls s1 @ [leader_args text]\<rparr>
      in case engine (leader_args text) of (evs, fin) \<Rightarrow> stream_loop dumps evs fin s2)"

text \<open>
  Line 133, \<^verbatim>\<open>EventSourceResponse(generate_stream())\<close>: the response, of the library
  \<^verbatim>\<open>sse_starlette\<close>, is what iterates the generator, after the handler has returned. A
  response whose client takes no item never iterates it, and the body of
  \<^verbatim>\<open>generate_stream\<close> never runs: nothing is printed and the engine is not called.
\<close>

definition event_source_response ::
  "json_dumps \<Rightarrow> probs_stream \<Rightarrow> pyval \<Rightarrow> sse_state \<Rightarrow> halt option \<times> sse_state" where
  "event_source_response dumps engine text s =
     (case demand s of
        Some 0 \<Rightarrow> (Some (Raises Cancelled), s)
      | _ \<Rightarrow> generate_stream dumps engine text s)"

text \<open>
  The handler, lines 118 to 133: the prompt is read, the command is broadcast, and the
  response made of the generator is returned; the server then runs the response.
  Nothing in the handler or in the generator catches an exception.
\<close>

definition generate ::
  "json_dumps \<Rightarrow> probs_stream \<Rightarrow> (pyval list \<Rightarrow> exn option) \<Rightarrow> request_body \<Rightarrow> sse_state
     \<Rightarrow> halt option \<times> sse_state" where
  "generate dumps engine bcast req s =
     (case request_text req of
        Inl e \<Rightarrow> (Some (Raises e), s)
      | Inr text \<Rightarrow>
          (case bcast (leader_command text) of
             Some e \<Rightarrow> (Some (Raises e), s)
           | None \<Rightarrow>
               event_source_response dumps engine text
                 (s\<lparr>h_broadcasts := h_broadcasts s @ [leader_command text]\<rparr>)))"

section \<open>The handlers at the head of their loops\<close>

text \<open>The state in which \<^verbatim>\<open>generate_ws\<close> enters its \<^verbatim>\<open>for\<close> loop, after the prompt
  \<open>t\<close> was read and broadcast, the one in which \<^verbatim>\<open>generate\<close> returns its response, and
  the one in which \<^verbatim>\<open>generate_stream\<close> enters its loop.\<close>

definition ws_streaming :: "string \<Rightarrow> recv_result list \<Rightarrow> nat option \<Rightarrow> ws_state" where
  "ws_streaming t rest budget =
     \<lparr>send_tokens = 0, recv_tokens = 0, inbox = rest, send_budget = budget, outbox = [],
      broadcasts = [leader_command (PStr t)], ws_calls = [leader_args (PStr t)],
      ws_stdout = [[PStr ''starting stream, text:'', PStr t]], ws_closed = False,
      trail = [(143, 0, 0)]\<rparr>"

definition sse_responding :: "pyval \<Rightarrow> nat option \<Rightarrow> sse_state" where
  "sse_responding tx d =
     \<lparr>demand = d, yielded = [], h_broadcasts = [leader_command tx], h_calls = [], h_stdout = []\<rparr>"

definition sse_streaming :: "pyval \<Rightarrow> nat option \<Rightarrow> sse_state" where
  "sse_streaming tx d =
     \<lparr>demand = d, yielded = [], h_broadcasts = [leader_command tx],
      h_calls = [leader_args tx], h_stdout = [[PStr ''starting stream, text:'', tx]]\<rparr>"

section \<open>The invariant of the counters\<close>

text \<open>
  What holds of every entry \<open>(line, send_tokens, recv_tokens)\<close> of the trail of a
  WebSocket session: the counters are ordered, their difference is at most 10, except
  right after \<^verbatim>\<open>send_tokens += 1\<close> on line 152 where it is at most 11, and an
  acknowledgement is only counted (line 156) once more than 10 frames were sent.
\<close>

definition entry_ok :: "nat \<times> int \<times> int \<Rightarrow> bool" where
  "entry_ok e =
     (case e of (l, a, b) \<Rightarrow>
        0 \<le> b \<and> b \<le> a \<and> a - b \<le> (if l = 152 then 11 else 10) \<and> (l = 156 \<longrightarrow> 10 < a))"

section \<open>Several connections on the leader\<close>

text \<open>
  The leader serves its connections as coroutines of one event loop: a handler runs
  until it reaches an \<^verbatim>\<open>await\<close> that suspends it, and then another one may run. Both
  handlers reach \<^verbatim>\<open>await asyncio.sleep(0)\<close>, which always suspends, after every token.
  A connection is therefore cut into steps that nothing interrupts:
  \<^item> the start: the prompt is read and the command is broadcast
    (\<^verbatim>\<open>dist.broadcast_object_list\<close> is an ordinary call, without any \<^verbatim>\<open>await\<close>); on
    the WebSocket the engine's generator is made in the same step, on the streamed-HTTP
    transport the handler returns its response;
  \<^item> on the streamed-HTTP transport, the step in which the response starts the generator
    \<^verbatim>\<open>generate_stream\<close>, which makes the engine's generator, or finds its client gone;
  \<^item> one round of the \<^verbatim>\<open>for\<close> loop, up to its \<^verbatim>\<open>sleep(0)\<close>;
  \<^item> the end, when the generator is exhausted or raises.
  \<open>Waiting\<close> is a connection that has not started, \<open>Responding\<close> a streamed-HTTP
  request whose command is broadcast and whose generator has not started, \<open>Streaming\<close> a
  connection whose generator still has the given events to yield, \<open>Stopped\<close> one whose
  handler has ended or is suspended for good.
\<close>

datatype task =
    WsWaiting ws_state
  | WsStreaming "tokev list" "exn option" ws_state
  | WsStopped "halt option" ws_state
  | HttpWaiting request_body sse_state
  | HttpResponding pyval sse_state
  | HttpStreaming "tokev list" "exn option" sse_state
  | HttpStopped "halt option" sse_state

text \<open>Lines 150 to 158, one round of the loop of \<^verbatim>\<open>generate_ws\<close>.\<close>

definition ws_iteration :: "json_dumps \<Rightarrow> tokev \<Rightarrow> ws_state \<Rightarrow> halt option \<times> ws_state" where
  "ws_iteration dumps ev s =
     (case send_text (event_frame dumps ev) (visit 150 s) of
        (Some h, s1) \<Rightarrow> (Some h, s1)
      | (None, s1) \<Rightarrow>
          (case ack_loop (visit 152 (s1\<lparr>send_tokens := send_tokens s1 + 1\<rparr>)) of
             (Some h, s2) \<Rightarrow> (Some h, s2)
           | (None, s2) \<Rightarrow> (None, visit 158 s2)))"

text \<open>
  One step of a connection. The second component is what the step hands to the
  Broadcast Channel: nothing, or one command. A WebSocket whose prompt has not come yet
  stays as it is.
\<close>

fun task_step ::
  "json_dumps \<Rightarrow> probs_stream \<Rightarrow> (pyval list \<Rightarrow> exn option) \<Rightarrow> task \<Rightarrow> task \<times> pyval list list" where
  "task_step dumps engine bcast (WsWaiting s0) =
     (case receive_text s0 of
        (Inl Blocked, s1) \<Rightarrow> (WsWaiting s0, [])
      | (Inl (Raises e), s1) \<Rightarrow> (WsStopped (Some (Raises e)) s1, [])
      | (Inr t, s1) \<Rightarrow>
          (let text = PStr t in
           case bcast (leader_command text) of
             Some e \<Rightarrow> (WsStopped (Some (Raises e)) s1, [])
           | None \<Rightarrow>
               (let s2 = s1\<lparr>broadcasts := broadcasts s1 @ [leader_command text]\<rparr>;
                    s3 = visit 143 (s2\<lparr>recv_tokens := 0, send_tokens := 0\<rparr>);
                    s4 = s3\<lparr>ws_stdout := ws_stdout s3 @ [[PStr ''starting stream, text:'', text]]\<rparr>;
                    s5 = s4\<lparr>ws_calls := ws_calls s4 @ [leader_args text]\<rparr>
                in case engine (leader_args text) of (evs, fin) \<Rightarrow>
                     (WsStreaming evs fin s5, [leader_command text]))))"
| "task_step dumps engine bcast (WsStreaming [] None s) =
     (WsStopped None (s\<lparr>ws_closed := True\<rparr>), [])"
| "task_step dumps engine bcast (WsStreaming [] (Some e) s) = (WsStopped (Some (Raises e)) s, [])"
| "task_step dumps engine bcast (WsStreaming (ev # evs) fin s) =
     (case ws_iteration dumps ev s of
        (Some h, s1) \<Rightarrow> (WsStopped (Some h) s1, [])
      | (None, s1) \<Rightarrow> (WsStreaming evs fin s1, []))"
| "task_step dumps engine bcast (WsStopped h s) = (WsStopped h s, [])"
| "task_step dumps engine bcast (HttpWaiting req s) =
     (case request_text req of
        Inl e \<Rightarrow> (HttpStopped (Some (Raises e)) s, [])
      | Inr text \<Rightarrow>
          (case bcast (leader_command text) of
             Some e \<Rightarrow> (HttpStopped (Some (Raises e)) s, [])
           | None \<Rightarrow>
               (HttpResponding text (s\<lparr>h_broadcasts := h_broadcasts s @ [leader_command text]\<rparr>),
                [leader_command text])))"
| "task_step dumps engine bcast (HttpResponding text s) =
     (case demand s of
        Some 0 \<Rightarrow> (HttpStopped (Some (Raises Cancelled)) s, [])
      | _ \<Rightarrow>
          (let s1 = s\<lparr>h_stdout := h_stdout s @ [[PStr ''starting stream, text:'', text]]\<rparr>;
               s2 = s1\<lparr>h_calls := h_calls s1 @ [leader_args text]\<rparr>
           in case engine (leader_args text) of (evs, fin) \<Rightarrow> (HttpStreaming evs fin s2, [])))"
| "task_step dumps engine bcast (HttpStreaming [] None s) =
     (case yield_item (Data ''<EOS>'') s of (h, s1) \<Rightarrow> (HttpStopped h s1, []))"
| "task_step dumps engine bcast (HttpStreaming [] (Some e) s) = (HttpStopped (Some (Raises e)) s, [])"
| "task_step dumps engine bcast (HttpStreaming (ev # evs) fin s) =
     (case yield_item (Data (event_frame dumps ev)) s of
        (Some h, s1) \<Rightarrow> (HttpStopped (Some h) s1, [])
      | (None, s1) \<Rightarrow> (HttpStreaming evs fin s1, []))"
| "task_step dumps engine bcast (HttpStopped h s) = (HttpStopped h s, [])"

text \<open>
  The leader: its connections and \<open>channel\<close>, the commands handed to the Broadcast
  Channel so far, in the order of the calls.
\<close>

record leader =
  tasks :: "task list"
  channel :: "pyval list list"

text \<open>The event loop lets connection \<open>i\<close> run one step.\<close>

definition leader_step ::
  "json_dumps \<Rightarrow> probs_stream \<Rightarrow> (pyval list \<Rightarrow> exn option) \<Rightarrow> nat \<Rightarrow> leader \<Rightarrow> leader" where
  "leader_step dumps engine bcast i l =
     (if i < length (tasks l) then
        (case task_step dumps engine bcast (tasks l ! i) of
           (t, cmds) \<Rightarrow> l\<lparr>tasks := (tasks l)[i := t], channel := channel l @ cmds\<rparr>)
      else l)"

text \<open>A schedule is the list of the connections the event loop resumes, in order.\<close>

fun run_schedule ::
  "json_dumps \<Rightarrow> probs_stream \<Rightarrow> (pyval list \<Rightarrow> exn option) \<Rightarrow> nat list \<Rightarrow> leader \<Rightarrow> leader" where
  "run_schedule dumps engine bcast [] l = l"
| "run_schedule dumps engine bcast (i # sched) l =
     run_schedule dumps engine bcast sched (leader_step dumps engine bcast i l)"

text \<open>
  A generation round is in flight on the leader from the broadcast of its command until
  its handler is through with the engine's generator: the connection is streaming, or
  about to start its generator, or suspended for good on an acknowledgement.
\<close>

fun round_in_flight :: "task \<Rightarrow> bool" where
  "round_in_flight (WsStreaming evs fin s) = True"
| "round_in_flight (WsStopped (Some Blocked) s) = True"
| "round_in_flight (HttpResponding text s) = True"
| "round_in_flight (HttpStreaming evs fin s) = True"
| "round_in_flight t = False"

definition in_flight :: "leader \<Rightarrow> nat" where
  "in_flight l = length (filter round_in_flight (tasks l))"

fun waiting :: "task \<Rightarrow> bool" where
  "waiting (WsWaiting s) = True"
| "waiting (HttpWaiting req s) = True"
| "waiting t = False"

text \<open>
  What a mutex in front of the Broadcast Channel would enforce and the code does not: a
  schedule is \<open>serialized\<close> when it resumes a connection that has not started only while
  no round is in flight.
\<close>

fun serialized ::
  "json_dumps \<Rightarrow> probs_stream \<Rightarrow> (pyval list \<Rightarrow> exn option) \<Rightarrow> nat list \<Rightarrow> leader \<Rightarrow> bool" where
  "serialized dumps engine bcast [] l = True"
| "serialized dumps engine bcast (i # sched) l =
     ((i < length (tasks l) \<and> waiting (tasks l ! i) \<longrightarrow> in_flight l = 0) \<and>
      serialized dumps engine bcast sched (leader_step dumps engine bcast i l))"

section \<open>Sample collaborators\<close>

text \<open>
  Concrete collaborators on which the properties below are exercised: the engine of the
  scenario ``prompt Hello, the engine yields He, llo, !'', an engine that yields \<open>n\<close>
  events and then ends as \<open>fin\<close> says, a stand-in for \<^verbatim>\<open>json.dumps\<close> that prints the
  word of an event between braces, a collaborator that never fails, a follower engine
  whose every call raises, and a leader with two WebSocket clients whose prompts have
  arrived.
\<close>

definition hello_events :: "tokev list" where
  "hello_events =
     [\<lparr>token = PInt 1, word = PStr ''He'', prob = PFloat (9 / 10), place = PInt 0, top5 = PList []\<rparr>,
      \<lparr>token = PInt 2, word = PStr ''llo'', prob = PFloat (8 / 10), place = PInt 0, top5 = PList []\<rparr>,
      \<lparr>token = PInt 3, word = PStr ''!'', prob = PFloat (7 / 10), place = PInt 0, top5 = PList []\<rparr>]"

definition hello_engine :: probs_stream where
  "hello_engine a = (hello_events, None)"

definition word_dumps :: json_dumps where
  "word_dumps v =
     (case v of
        PDict kvs \<Rightarrow> (case map_of kvs ''word'' of Some (PStr w) \<Rightarrow> ''{'' @ w @ ''}'' | _ \<Rightarrow> ''{}'')
      | _ \<Rightarrow> ''null'')"

definition counting_engine :: "nat \<Rightarrow> exn option \<Rightarrow> probs_stream" where
  "counting_engine n fin a =
     (map (\<lambda>i. \<lparr>token = PInt (int i), word = PStr ''w'', prob = PFloat (1 / 2), place = PInt 0,
                 top5 = PList []\<rparr>) [0..<n], fin)"

definition no_failure :: "'a \<Rightarrow> exn option" where
  "no_failure x = None"

definition failing_generate :: engine_generate where
  "failing_generate a = Some (EngineFailure ''out of memory'')"

definition two_clients :: leader where
  "two_clients =
     \<lparr>tasks = [WsWaiting (ws_connect [RText ''Hello''] None),
               WsWaiting (ws_connect [RText ''Bye''] None)],
      channel = []\<rparr>"

section \<open>Properties\<close>

subsection \<open>What the loops leave untouched\<close>

declare ack_loop.simps [simp del]

lemma receive_text_fields:
  "receive_text s = (r, s1) \<Longrightarrow>
     broadcasts s1 = broadcasts s \<and> ws_calls s1 = ws_calls s \<and> outbox s1 = outbox s \<and>
     ws_closed s1 = ws_closed s \<and> send_tokens s1 = send_tokens s \<and> recv_tokens s1 = recv_tokens s \<and>
     send_budget s1 = send_budget s \<and> trail s1 = trail s \<and> ws_stdout s1 = ws_stdout s"
  by (auto simp: receive_text_def split: list.splits recv_result.splits)

lemma send_text_fields:
  "send_text m s = (r, s1) \<Longrightarrow>
     broadcasts s1 = broadcasts s \<and> ws_calls s1 = ws_calls s \<and>
     ws_closed s1 = ws_closed s \<and> send_tokens s1 = send_tokens s \<and> recv_tokens s1 = recv_tokens s \<and>
     inbox s1 = inbox s \<and> trail s1 = trail s \<and> ws_stdout s1 = ws_stdout s"
  by (auto simp: send_text_def split: option.splits nat.splits)

lemma ack_loop_fields:
  "ack_loop s = (r, s') \<Longrightarrow>
     broadcasts s' = broadcasts s \<and> ws_calls s' = ws_calls s \<and> outbox s' = outbox s \<and>
     ws_closed s' = ws_closed s \<and> send_tokens s' = send_tokens s \<and> send_budget s' = send_budget s"
proof (induction s arbitrary: r s' rule: ack_loop.induct)
  case (1 s)
  show ?case
  proof (cases "recv_tokens s < send_tokens s - 10")
    case False
    with "1.prems" show ?thesis by (simp add: ack_loop.simps)
  next
    case True
    obtain x s1 where rt: "receive_text s = (x, s1)" by (cases "receive_text s")
    show ?thesis
    proof (cases x)
      case (Inl h)
      with True rt "1.prems" receive_text_fields[OF rt] show ?thesis
        by (simp add: ack_loop.simps)
    next
      case (Inr t)
      let ?s2 = "visit 156 (s1\<lparr>recv_tokens := recv_tokens s1 + 1\<rparr>)"
      from True rt Inr "1.prems" have "ack_loop ?s2 = (r, s')"
        by (simp add: ack_loop.simps)
      from "1.IH"[OF True rt[symmetric] Inr this] receive_text_fields[OF rt]
      show ?thesis by (simp add: visit_def)
    qed
  qed
qed







subsection \<open>The counters along a session\<close>

lemma ack_loop_trail:
  "ack_loop s = (r, s') \<Longrightarrow> 0 \<le> recv_tokens s \<Longrightarrow> recv_tokens s \<le> send_tokens s \<Longrightarrow>
   send_tokens s - recv_tokens s \<le> 11 \<Longrightarrow> (\<forall>e\<in>set (trail s). entry_ok e) \<Longrightarrow>
     (\<forall>e\<in>set (trail s'). entry_ok e) \<and> 0 \<le> recv_tokens s' \<and> recv_tokens s' \<le> send_tokens s' \<and>
     send_tokens s' - recv_tokens s' \<le> 11 \<and>
     (r = None \<longrightarrow> send_tokens s' - recv_tokens s' \<le> 10)"
proof (induction s arbitrary: r s' rule: ack_loop.induct)
  case (1 s)
  show ?case
  proof (cases "recv_tokens s < send_tokens s - 10")
    case False
    with "1.prems" show ?thesis by (simp add: ack_loop.simps)
  next
    case True
    obtain x s1 where rt: "receive_text s = (x, s1)" by (cases "receive_text s")
    note f = receive_text_fields[OF rt]
    show ?thesis
    proof (cases x)
      case (Inl h)
      with True rt "1.prems" f show ?thesis
        by (auto simp: ack_loop.simps)
    next
      case (Inr t)
      let ?s2 = "visit 156 (s1\<lparr>recv_tokens := recv_tokens s1 + 1\<rparr>)"
      from True rt Inr "1.prems" have run: "ack_loop ?s2 = (r, s')"
        by (simp add: ack_loop.simps)
      have "(\<forall>e\<in>set (trail ?s2). entry_ok e)"
        using True "1.prems" f by (simp add: visit_def entry_ok_def)
      moreover have "0 \<le> recv_tokens ?s2" "recv_tokens ?s2 \<le> send_tokens ?s2"
        "send_tokens ?s2 - recv_tokens ?s2 \<le> 11"
        using True "1.prems" f by (simp_all add: visit_def)
      ultimately show ?thesis
        using "1.IH"[OF True rt[symmetric] Inr run] by simp
    qed
  qed
qed

lemma token_loop_trail:
  "token_loop dumps evs fin s = (r, s') \<Longrightarrow> 0 \<le> recv_tokens s \<Longrightarrow>
   recv_tokens s \<le> send_tokens s \<Longrightarrow> send_tokens s - recv_tokens s \<le> 10 \<Longrightarrow>
   (\<forall>e\<in>set (trail s). entry_ok e) \<Longrightarrow>
     (\<forall>e\<in>set (trail s'). entry_ok e) \<and> 0 \<le> recv_tokens s' \<and> recv_tokens s' \<le> send_tokens s' \<and>
     send_tokens s' - recv_tokens s' \<le> 11 \<and>
     (r = None \<longrightarrow> send_tokens s' - recv_tokens s' \<le> 10)"
proof (induction evs arbitrary: s r s')
  case Nil
  then show ?case by (cases fin) auto
next
  case (Cons ev evs)
  have v: "(\<forall>e\<in>set (trail (visit 150 s)). entry_ok e)"
    using Cons.prems(2-5) by (auto simp: visit_def entry_ok_def)
  obtain r1 s1 where st: "send_text (event_frame dumps ev) (visit 150 s) = (r1, s1)"
    by (cases "send_text (event_frame dumps ev) (visit 150 s)")
  note f1 = send_text_fields[OF st]
  show ?case
  proof (cases r1)
    case (Some h)
    with st Cons.prems f1 v show ?thesis by (auto simp: visit_def)
  next
    case None
    let ?s1' = "visit 152 (s1\<lparr>send_tokens := send_tokens s1 + 1\<rparr>)"
    obtain r2 s2 where al: "ack_loop ?s1' = (r2, s2)"
      by (cases "ack_loop ?s1'")
    have pre: "0 \<le> recv_tokens ?s1'" "recv_tokens ?s1' \<le> send_tokens ?s1'"
      "send_tokens ?s1' - recv_tokens ?s1' \<le> 11" "(\<forall>e\<in>set (trail ?s1'). entry_ok e)"
      using Cons.prems f1 v by (simp_all add: visit_def entry_ok_def)
    note a = ack_loop_trail[OF al pre]
    show ?thesis
    proof (cases r2)
      case (Some h)
      with None st al Cons.prems a show ?thesis by auto
    next
      case None2: None
      with None st al Cons.prems have run: "token_loop dumps evs fin (visit 158 s2) = (r, s')"
        by simp
      have "(\<forall>e\<in>set (trail (visit 158 s2)). entry_ok e)"
        using a None2 by (simp add: visit_def entry_ok_def)
      moreover have "0 \<le> recv_tokens (visit 158 s2)"
        "recv_tokens (visit 158 s2) \<le> send_tokens (visit 158 s2)"
        "send_tokens (visit 158 s2) - recv_tokens (visit 158 s2) \<le> 10"
        using a None2 by (simp_all add: visit_def)
      ultimately show ?thesis using Cons.IH[OF run] by simp
    qed
  qed
qed

lemma generate_ws_trail:
  assumes "generate_ws dumps engine bcast (ws_connect frames budget) = (h, s)"
  shows "(\<forall>e\<in>set (trail s). entry_ok e) \<and> (h = None \<longrightarrow> send_tokens s - recv_tokens s \<le> 10)"
proof (cases frames)
  case Nil
  with assms show ?thesis by (auto simp: generate_ws_def receive_text_def ws_connect_def)
next
  case (Cons f rest)
  show ?thesis
  proof (cases f)
    case RDisconnect
    with Cons assms show ?thesis by (auto simp: generate_ws_def receive_text_def ws_connect_def)
  next
    case (RText t)
    show ?thesis
    proof (cases "bcast (leader_command (PStr t))")
      case (Some e)
      with RText Cons assms show ?thesis
        by (auto simp: generate_ws_def receive_text_def ws_connect_def)
    next
      case None
      obtain evs fin where en: "engine (leader_args (PStr t)) = (evs, fin)"
        by (cases "engine (leader_args (PStr t))")
      let ?s5 = "\<lparr>send_tokens = 0, recv_tokens = 0, inbox = rest, send_budget = budget,
        outbox = [], broadcasts = [leader_command (PStr t)], ws_calls = [leader_args (PStr t)],
        ws_stdout = [[PStr ''starting stream, text:'', PStr t]], ws_closed = False,
        trail = [(143, 0, 0)]\<rparr>"
      obtain r6 s6 where tl: "token_loop dumps evs fin ?s5 = (r6, s6)"
        by (cases "token_loop dumps evs fin ?s5")
      have "(\<forall>e\<in>set (trail s6). entry_ok e) \<and> (r6 = None \<longrightarrow> send_tokens s6 - recv_tokens s6 \<le> 10)"
        using token_loop_trail[OF tl] by (simp add: entry_ok_def)
      moreover from assms Cons RText None en tl
      have "(h = r6 \<and> s = s6 \<and> r6 \<noteq> None) \<or> (h = None \<and> r6 = None \<and> s = s6\<lparr>ws_closed := True\<rparr>)"
        by (auto simp: generate_ws_def receive_text_def ws_connect_def visit_def Let_def
            split: option.splits)
      ultimately show ?thesis by auto
    qed
  qed
qed

subsection \<open>How the loops end and what they have sent\<close>

lemma send_text_cases:
  "send_text m s = (r, s1) \<Longrightarrow>
     (r = None \<and> outbox s1 = outbox s @ [m]) \<or> (r = Some (Raises SendFailure) \<and> s1 = s)"
  by (auto simp: send_text_def split: option.splits nat.splits)

lemma ack_loop_halts:
  "ack_loop s = (r, s') \<Longrightarrow>
     r = None \<or> r = Some Blocked \<or> r = Some (Raises WebSocketDisconnect)"
proof (induction s arbitrary: r s' rule: ack_loop.induct)
  case (1 s)
  show ?case
  proof (cases "recv_tokens s < send_tokens s - 10")
    case False
    with "1.prems" show ?thesis by (simp add: ack_loop.simps)
  next
    case True
    obtain x s1 where rt: "receive_text s = (x, s1)" by (cases "receive_text s")
    show ?thesis
    proof (cases x)
      case (Inl h)
      with True rt "1.prems" show ?thesis
        by (auto simp: ack_loop.simps receive_text_def split: list.splits recv_result.splits)
    next
      case (Inr t)
      with True rt "1.prems"
      have "ack_loop (visit 156 (s1\<lparr>recv_tokens := recv_tokens s1 + 1\<rparr>)) = (r, s')"
        by (simp add: ack_loop.simps)
      from "1.IH"[OF True rt[symmetric] Inr this] show ?thesis .
    qed
  qed
qed

lemma token_loop_outcome:
  "token_loop dumps evs fin s = (r, s') \<Longrightarrow>
     (r = map_option Raises fin \<and> outbox s' = outbox s @ map (event_frame dumps) evs) \<or>
     ((r = Some (Raises SendFailure) \<or> r = Some Blocked \<or> r = Some (Raises WebSocketDisconnect)) \<and>
      (\<exists>k\<le>length evs. outbox s' = outbox s @ map (event_frame dumps) (take k evs)))"
proof (induction evs arbitrary: s r s')
  case Nil
  then show ?case by (cases fin) auto
next
  case (Cons ev evs)
  obtain r1 s1 where st: "send_text (event_frame dumps ev) (visit 150 s) = (r1, s1)"
    by (cases "send_text (event_frame dumps ev) (visit 150 s)")
  from send_text_cases[OF st]
  show ?case
  proof
    assume a: "r1 = Some (Raises SendFailure) \<and> s1 = visit 150 s"
    with st Cons.prems have "r = Some (Raises SendFailure)" "s' = visit 150 s" by auto
    then have "r = Some (Raises SendFailure)"
      "outbox s' = outbox s @ map (event_frame dumps) (take 0 (ev # evs))"
      by (simp_all add: visit_def)
    then show ?thesis by blast
  next
    assume a: "r1 = None \<and> outbox s1 = outbox (visit 150 s) @ [event_frame dumps ev]"
    then have o1: "outbox s1 = outbox s @ [event_frame dumps ev]" by (simp add: visit_def)
    let ?s1' = "visit 152 (s1\<lparr>send_tokens := send_tokens s1 + 1\<rparr>)"
    obtain r2 s2 where al: "ack_loop ?s1' = (r2, s2)" by (cases "ack_loop ?s1'")
    from ack_loop_fields[OF al] o1
    have o2: "outbox s2 = outbox s @ [event_frame dumps ev]" by (simp add: visit_def)
    show ?thesis
    proof (cases r2)
      case (Some h)
      with a st al Cons.prems have rs: "r = r2" "s' = s2" by auto
      from ack_loop_halts[OF al] Some rs
      have "r = Some Blocked \<or> r = Some (Raises WebSocketDisconnect)" by auto
      moreover have "outbox s' = outbox s @ map (event_frame dumps) (take 1 (ev # evs))"
        using o2 rs by simp
      moreover have "1 \<le> length (ev # evs)" by simp
      ultimately show ?thesis by blast
    next
      case None
      with a st al Cons.prems have run: "token_loop dumps evs fin (visit 158 s2) = (r, s')"
        by simp
      have o3: "outbox (visit 158 s2) = outbox s @ [event_frame dumps ev]"
        using o2 by (simp add: visit_def)
      from Cons.IH[OF run]
      show ?thesis
      proof
        assume "r = map_option Raises fin \<and>
          outbox s' = outbox (visit 158 s2) @ map (event_frame dumps) evs"
        with o3 show ?thesis by simp
      next
        assume b: "(r = Some (Raises SendFailure) \<or> r = Some Blocked \<or>
            r = Some (Raises WebSocketDisconnect)) \<and>
          (\<exists>k\<le>length evs. outbox s' = outbox (visit 158 s2) @ map (event_frame dumps) (take k evs))"
        then obtain k where k: "k \<le> length evs"
          "outbox s' = outbox (visit 158 s2) @ map (event_frame dumps) (take k evs)" by blast
        then have "Suc k \<le> length (ev # evs)"
          "outbox s' = outbox s @ map (event_frame dumps) (take (Suc k) (ev # evs))"
          using o3 by simp_all
        with b show ?thesis by blast
      qed
    qed
  qed
qed

lemma token_loop_short:
  "send_tokens s + int (length evs) \<le> 10 \<Longrightarrow> 0 \<le> recv_tokens s \<Longrightarrow>
   (\<forall>k. send_budget s = Some k \<longrightarrow> length evs \<le> k) \<Longrightarrow>
     \<exists>s'. token_loop dumps evs fin s = (map_option Raises fin, s') \<and> inbox s' = inbox s \<and>
          outbox s' = outbox s @ map (event_frame dumps) evs \<and> ws_closed s' = ws_closed s"
proof (induction evs arbitrary: s)
  case Nil
  then show ?case by (cases fin) auto
next
  case (Cons ev evs)
  let ?m = "event_frame dumps ev"
  obtain s1 where st: "send_text ?m (visit 150 s) = (None, s1)"
    and f1: "outbox s1 = outbox s @ [?m]" "inbox s1 = inbox s" "ws_closed s1 = ws_closed s"
      "send_tokens s1 = send_tokens s" "recv_tokens s1 = recv_tokens s"
      "\<forall>k. send_budget s1 = Some k \<longrightarrow> length evs \<le> k"
    using Cons.prems(3)
    by (cases "send_budget s"; cases "the (send_budget s)")
       (auto simp: send_text_def visit_def)
  let ?s1' = "visit 152 (s1\<lparr>send_tokens := send_tokens s1 + 1\<rparr>)"
  have al: "ack_loop ?s1' = (None, ?s1')"
    using Cons.prems f1 by (simp add: ack_loop.simps visit_def)
  let ?s3 = "visit 158 ?s1'"
  have "send_tokens ?s3 + int (length evs) \<le> 10" "0 \<le> recv_tokens ?s3"
    "\<forall>k. send_budget ?s3 = Some k \<longrightarrow> length evs \<le> k"
    using Cons.prems f1 by (simp_all add: visit_def)
  from Cons.IH[OF this] obtain s' where
    run: "token_loop dumps evs fin ?s3 = (map_option Raises fin, s')"
    and g: "inbox s' = inbox ?s3" "outbox s' = outbox ?s3 @ map (event_frame dumps) evs"
      "ws_closed s' = ws_closed ?s3" by blast
  have "token_loop dumps (ev # evs) fin s = (map_option Raises fin, s')"
    using st al run by simp
  moreover have "inbox s' = inbox s" "outbox s' = outbox s @ map (event_frame dumps) (ev # evs)"
    "ws_closed s' = ws_closed s"
    using g f1 by (simp_all add: visit_def)
  ultimately show ?case by blast
qed

lemma ack_loop_cooperative:
  assumes "inbox s = map RText ts" "send_tokens s - recv_tokens s \<le> 11"
    "send_tokens s - recv_tokens s = 11 \<longrightarrow> ts \<noteq> []"
  shows "\<exists>s' ts'. ack_loop s = (None, s') \<and> send_tokens s' = send_tokens s \<and>
           outbox s' = outbox s \<and> send_budget s' = send_budget s \<and> ws_closed s' = ws_closed s \<and>
           send_tokens s' - recv_tokens s' \<le> 10 \<and> inbox s' = map RText ts' \<and>
           int (length ts') = int (length ts) - (recv_tokens s' - recv_tokens s)"
proof (cases "recv_tokens s < send_tokens s - 10")
  case False
  then have "ack_loop s = (None, s)" by (simp add: ack_loop.simps)
  with assms(1) False show ?thesis by auto
next
  case True
  with assms obtain t ts' where ts: "ts = t # ts'" by (cases ts) auto
  let ?s2 = "visit 156 (s\<lparr>inbox := map RText ts', recv_tokens := recv_tokens s + 1\<rparr>)"
  have rt: "receive_text s = (Inr t, s\<lparr>inbox := map RText ts'\<rparr>)"
    using assms(1) ts by (simp add: receive_text_def)
  have "\<not> recv_tokens ?s2 < send_tokens ?s2 - 10"
    using assms(2) by (simp add: visit_def)
  then have "ack_loop ?s2 = (None, ?s2)" by (simp add: ack_loop.simps)
  then have "ack_loop s = (None, ?s2)"
    using True rt by (simp add: ack_loop.simps[of s])
  moreover have "send_tokens ?s2 = send_tokens s" "outbox ?s2 = outbox s"
    "send_budget ?s2 = send_budget s" "ws_closed ?s2 = ws_closed s"
    "send_tokens ?s2 - recv_tokens ?s2 \<le> 10" "inbox ?s2 = map RText ts'"
    "int (length ts') = int (length ts) - (recv_tokens ?s2 - recv_tokens s)"
    using assms(2) ts by (simp_all add: visit_def)
  ultimately show ?thesis by blast
qed

lemma token_loop_cooperative:
  "inbox s = map RText ts \<Longrightarrow> send_tokens s - recv_tokens s \<le> 10 \<Longrightarrow>
   (\<forall>k. send_budget s = Some k \<longrightarrow> length evs \<le> k) \<Longrightarrow>
   send_tokens s + int (length evs) - 10 - recv_tokens s \<le> int (length ts) \<Longrightarrow>
     \<exists>s'. token_loop dumps evs fin s = (map_option Raises fin, s') \<and>
          outbox s' = outbox s @ map (event_frame dumps) evs \<and> ws_closed s' = ws_closed s"
proof (induction evs arbitrary: s ts)
  case Nil
  then show ?case by (cases fin) auto
next
  case (Cons ev evs)
  let ?m = "event_frame dumps ev"
  obtain s1 where st: "send_text ?m (visit 150 s) = (None, s1)"
    and f1: "outbox s1 = outbox s @ [?m]" "inbox s1 = inbox s" "ws_closed s1 = ws_closed s"
      "send_tokens s1 = send_tokens s" "recv_tokens s1 = recv_tokens s"
      "\<forall>k. send_budget s1 = Some k \<longrightarrow> length evs \<le> k"
    using Cons.prems(3)
    by (cases "send_budget s"; cases "the (send_budget s)")
       (auto simp: send_text_def visit_def)
  let ?s1' = "visit 152 (s1\<lparr>send_tokens := send_tokens s1 + 1\<rparr>)"
  have pre: "inbox ?s1' = map RText ts" "send_tokens ?s1' - recv_tokens ?s1' \<le> 11"
    "send_tokens ?s1' - recv_tokens ?s1' = 11 \<longrightarrow> ts \<noteq> []"
    using Cons.prems f1 by (auto simp: visit_def)
  from ack_loop_cooperative[OF pre] obtain s2 ts' where
    al: "ack_loop ?s1' = (None, s2)"
    and f2: "send_tokens s2 = send_tokens ?s1'" "outbox s2 = outbox ?s1'"
      "send_budget s2 = send_budget ?s1'" "ws_closed s2 = ws_closed ?s1'"
      "send_tokens s2 - recv_tokens s2 \<le> 10" "inbox s2 = map RText ts'"
      "int (length ts') = int (length ts) - (recv_tokens s2 - recv_tokens ?s1')"
    by blast
  let ?s3 = "visit 158 s2"
  have "inbox ?s3 = map RText ts'" "send_tokens ?s3 - recv_tokens ?s3 \<le> 10"
    "\<forall>k. send_budget ?s3 = Some k \<longrightarrow> length evs \<le> k"
    "send_tokens ?s3 + int (length evs) - 10 - recv_tokens ?s3 \<le> int (length ts')"
    using Cons.prems f1 f2 by (simp_all add: visit_def)
  from Cons.IH[OF this] obtain s' where
    run: "token_loop dumps evs fin ?s3 = (map_option Raises fin, s')"
    and g: "outbox s' = outbox ?s3 @ map (event_frame dumps) evs" "ws_closed s' = ws_closed ?s3"
    by blast
  have "token_loop dumps (ev # evs) fin s = (map_option Raises fin, s')"
    using st al run by simp
  moreover have "outbox s' = outbox s @ map (event_frame dumps) (ev # evs)"
    "ws_closed s' = ws_closed s"
    using g f1 f2 by (simp_all add: visit_def)
  ultimately show ?case by blast
qed

lemma yield_item_cases:
  "yield_item x s = (r, s1) \<Longrightarrow>
     (r = None \<and> yielded s1 = yielded s @ [x]) \<or> (r = Some (Raises Cancelled) \<and> s1 = s)"
  by (auto simp: yield_item_def split: option.splits nat.splits)

lemma stream_loop_outcome:
  "stream_loop dumps evs fin s = (r, s') \<Longrightarrow>
     (fin = None \<and> r = None \<and>
        yielded s' = yielded s @ map (\<lambda>ev. Data (event_frame dumps ev)) evs @ [Data ''<EOS>'']) \<or>
     (\<exists>e. fin = Some e \<and> r = Some (Raises e) \<and>
        yielded s' = yielded s @ map (\<lambda>ev. Data (event_frame dumps ev)) evs) \<or>
     (r = Some (Raises Cancelled) \<and>
        (\<exists>k\<le>length evs. yielded s' = yielded s @ map (\<lambda>ev. Data (event_frame dumps ev)) (take k evs)))"
proof (induction evs arbitrary: s r s')
  case Nil
  then show ?case by (cases fin) (auto dest: yield_item_cases)
next
  case (Cons ev evs)
  let ?x = "Data (event_frame dumps ev)"
  obtain r1 s1 where y: "yield_item ?x s = (r1, s1)" by (cases "yield_item ?x s")
  from yield_item_cases[OF y] show ?case
  proof
    assume "r1 = Some (Raises Cancelled) \<and> s1 = s"
    with y Cons.prems have "r = Some (Raises Cancelled)"
      "yielded s' = yielded s @ map (\<lambda>ev. Data (event_frame dumps ev)) (take 0 (ev # evs))"
      by auto
    then show ?thesis by blast
  next
    assume a: "r1 = None \<and> yielded s1 = yielded s @ [?x]"
    with y Cons.prems have run: "stream_loop dumps evs fin s1 = (r, s')" by simp
    from Cons.IH[OF run] show ?thesis
    proof (elim disjE)
      assume "fin = None \<and> r = None \<and>
        yielded s' = yielded s1 @ map (\<lambda>ev. Data (event_frame dumps ev)) evs @ [Data ''<EOS>'']"
      with a show ?thesis by simp
    next
      assume "\<exists>e. fin = Some e \<and> r = Some (Raises e) \<and>
        yielded s' = yielded s1 @ map (\<lambda>ev. Data (event_frame dumps ev)) evs"
      with a show ?thesis by simp
    next
      assume b: "r = Some (Raises Cancelled) \<and>
        (\<exists>k\<le>length evs. yielded s' = yielded s1 @ map (\<lambda>ev. Data (event_frame dumps ev)) (take k evs))"
      then obtain k where "k \<le> length evs"
        "yielded s' = yielded s1 @ map (\<lambda>ev. Data (event_frame dumps ev)) (take k evs)" by blast
      with a have "Suc k \<le> length (ev # evs)"
        "yielded s' = yielded s @ map (\<lambda>ev. Data (event_frame dumps ev)) (take (Suc k) (ev # evs))"
        by simp_all
      with b show ?thesis by blast
    qed
  qed
qed

lemma stream_loop_drained:
  "(\<forall>k. demand s = Some k \<longrightarrow> length evs < k) \<Longrightarrow>
     \<exists>s'. stream_loop dumps evs fin s = (map_option Raises fin, s') \<and>
          yielded s' = yielded s @ map (\<lambda>ev. Data (event_frame dumps ev)) evs @
             (if fin = None then [Data ''<EOS>''] else [])"
proof (induction evs arbitrary: s)
  case Nil
  then show ?case
    by (cases fin; cases "demand s"; cases "the (demand s)") (auto simp: yield_item_def)
next
  case (Cons ev evs)
  let ?x = "Data (event_frame dumps ev)"
  obtain s1 where y: "yield_item ?x s = (None, s1)"
    and f: "yielded s1 = yielded s @ [?x]" "\<forall>k. demand s1 = Some k \<longrightarrow> length evs < k"
    using Cons.prems
    by (cases "demand s"; cases "the (demand s)") (auto simp: yield_item_def)
  from Cons.IH[OF f(2)] obtain s' where
    "stream_loop dumps evs fin s1 = (map_option Raises fin, s')"
    "yielded s' = yielded s1 @ map (\<lambda>ev. Data (event_frame dumps ev)) evs @
             (if fin = None then [Data ''<EOS>''] else [])" by blast
  with y f(1) show ?case by simp
qed

subsection \<open>The command is the same on every rank\<close>




subsection \<open>The handlers up to their loops\<close>

lemma generate_ws_started:
  assumes "bcast (leader_command (PStr t)) = None" "engine (leader_args (PStr t)) = (evs, fin)"
  shows "generate_ws dumps engine bcast (ws_connect (RText t # rest) budget) =
     (case token_loop dumps evs fin (ws_streaming t rest budget) of
        (Some h, s6) \<Rightarrow> (Some h, s6)
      | (None, s6) \<Rightarrow> (None, s6\<lparr>ws_closed := True\<rparr>))"
  using assms
  by (simp add: generate_ws_def receive_text_def ws_connect_def visit_def ws_streaming_def Let_def)

lemma generate_started:
  assumes "request_text req = Inr tx" "bcast (leader_command tx) = None"
    "engine (leader_args tx) = (evs, fin)" "d \<noteq> Some 0"
  shows "generate dumps engine bcast req (sse_connect d) =
     stream_loop dumps evs fin (sse_streaming tx d)"
  using assms
  by (simp add: generate_def event_source_response_def generate_stream_def sse_connect_def
      sse_streaming_def split: option.splits nat.splits)

lemma generate_not_iterated:
  assumes "request_text req = Inr tx" "bcast (leader_command tx) = None"
  shows "generate dumps engine bcast req (sse_connect (Some 0)) =
     (Some (Raises Cancelled), sse_responding tx (Some 0))"
  using assms
  by (simp add: generate_def event_source_response_def sse_connect_def sse_responding_def)

lemma generate_outcome:
  assumes "generate dumps engine bcast req (sse_connect d) = (h, s)"
    and "request_text req = Inr tx" and "bcast (leader_command tx) = None"
    and "engine (leader_args tx) = (evs, fin)"
  shows "(fin = None \<and> h = None \<and>
            yielded s = map (\<lambda>ev. Data (event_frame dumps ev)) evs @ [Data ''<EOS>'']) \<or>
         (\<exists>e. fin = Some e \<and> h = Some (Raises e) \<and>
            yielded s = map (\<lambda>ev. Data (event_frame dumps ev)) evs) \<or>
         (h = Some (Raises Cancelled) \<and>
            (\<exists>k\<le>length evs. yielded s = map (\<lambda>ev. Data (event_frame dumps ev)) (take k evs)))"
proof (cases "d = Some 0")
  case True
  with assms(1) generate_not_iterated[where bcast = bcast and engine = engine and dumps = dumps,
      OF assms(2,3)]
  have "h = Some (Raises Cancelled)" "yielded s = []" by (auto simp: sse_responding_def)
  then have "h = Some (Raises Cancelled)" "0 \<le> length evs"
    "yielded s = map (\<lambda>ev. Data (event_frame dumps ev)) (take 0 evs)" by simp_all
  then show ?thesis by blast
next
  case False
  from assms(1) generate_started[where bcast = bcast and engine = engine and dumps = dumps,
      OF assms(2,3,4) False]
  have sl: "stream_loop dumps evs fin (sse_streaming tx d) = (h, s)" by simp
  have "yielded (sse_streaming tx d) = []" by (simp add: sse_streaming_def)
  with stream_loop_outcome[OF sl] show ?thesis by simp
qed

lemma generate_drained:
  assumes "generate dumps engine bcast req (sse_connect d) = (h, s)"
    and "request_text req = Inr tx" and "bcast (leader_command tx) = None"
    and "engine (leader_args tx) = (evs, fin)"
    and "\<forall>k. d = Some k \<longrightarrow> length evs < k"
  shows "h = map_option Raises fin \<and>
         yielded s = map (\<lambda>ev. Data (event_frame dumps ev)) evs @
            (if fin = None then [Data ''<EOS>''] else [])"
proof -
  from assms(5) have nz: "d \<noteq> Some 0" by auto
  from assms(1) generate_started[where bcast = bcast and engine = engine and dumps = dumps,
      OF assms(2,3,4) nz]
  have sl: "stream_loop dumps evs fin (sse_streaming tx d) = (h, s)" by simp
  have y0: "yielded (sse_streaming tx d) = []" "demand (sse_streaming tx d) = d"
    by (simp_all add: sse_streaming_def)
  with assms(5) have "\<forall>k. demand (sse_streaming tx d) = Some k \<longrightarrow> length evs < k" by simp
  from stream_loop_drained[OF this, of dumps fin] sl y0 show ?thesis by auto
qed

lemma ack_loop_reads:
  "ack_loop s = (r, s') \<Longrightarrow> 0 \<le> recv_tokens s \<Longrightarrow>
     0 \<le> recv_tokens s' \<and> (inbox s' = inbox s \<or> 10 < send_tokens s')"
proof (induction s arbitrary: r s' rule: ack_loop.induct)
  case (1 s)
  show ?case
  proof (cases "recv_tokens s < send_tokens s - 10")
    case False
    with "1.prems" show ?thesis by (simp add: ack_loop.simps)
  next
    case True
    with "1.prems" have big: "10 < send_tokens s" by simp
    obtain x s1 where rt: "receive_text s = (x, s1)" by (cases "receive_text s")
    note f = receive_text_fields[OF rt]
    show ?thesis
    proof (cases x)
      case (Inl h)
      with True rt "1.prems" f big show ?thesis by (auto simp: ack_loop.simps)
    next
      case (Inr t)
      let ?s2 = "visit 156 (s1\<lparr>recv_tokens := recv_tokens s1 + 1\<rparr>)"
      from True rt Inr "1.prems" have run: "ack_loop ?s2 = (r, s')"
        by (simp add: ack_loop.simps)
      have "0 \<le> recv_tokens ?s2" using "1.prems" f by (simp add: visit_def)
      from "1.IH"[OF True rt[symmetric] Inr run this] ack_loop_fields[OF run] f big
      show ?thesis by (simp add: visit_def)
    qed
  qed
qed

lemma token_loop_reads:
  "token_loop dumps evs fin s = (r, s') \<Longrightarrow> 0 \<le> recv_tokens s \<Longrightarrow>
     send_tokens s \<le> send_tokens s' \<and> (inbox s' = inbox s \<or> 10 < send_tokens s')"
proof (induction evs arbitrary: s r s')
  case Nil
  then show ?case by (cases fin) auto
next
  case (Cons ev evs)
  obtain r1 s1 where st: "send_text (event_frame dumps ev) (visit 150 s) = (r1, s1)"
    by (cases "send_text (event_frame dumps ev) (visit 150 s)")
  note f1 = send_text_fields[OF st]
  show ?case
  proof (cases r1)
    case (Some h)
    with st Cons.prems f1 show ?thesis by (auto simp: visit_def)
  next
    case None
    let ?s1' = "visit 152 (s1\<lparr>send_tokens := send_tokens s1 + 1\<rparr>)"
    obtain r2 s2 where al: "ack_loop ?s1' = (r2, s2)" by (cases "ack_loop ?s1'")
    have "0 \<le> recv_tokens ?s1'" using Cons.prems f1 by (simp add: visit_def)
    note a = ack_loop_reads[OF al this] ack_loop_fields[OF al]
    show ?thesis
    proof (cases r2)
      case (Some h)
      with None st al Cons.prems a f1 show ?thesis by (auto simp: visit_def)
    next
      case None2: None
      with None st al Cons.prems have run: "token_loop dumps evs fin (visit 158 s2) = (r, s')"
        by simp
      have "0 \<le> recv_tokens (visit 158 s2)" using a by (simp add: visit_def)
      from Cons.IH[OF run this] a f1 show ?thesis by (auto simp: visit_def)
    qed
  qed
qed

subsection \<open>The gap between frames sent and acknowledgements read\<close>

text \<open>
  Claim C2, as amended. On the WebSocket transport, for every sequence of client frames,
  every engine output and every behaviour of the connection, the difference
  \<open>send_tokens - recv_tokens\<close> is at most 10 whenever the handler sends a frame (line
  150), after every acknowledgement it counts (line 156) and when it leaves the
  acknowledgement loop (line 158); it reaches 11 only right after \<^verbatim>\<open>send_tokens += 1\<close>
  (line 152), and the handler then reads acknowledgement frames before it sends anything
  more. A run that ends normally ends with a difference of at most 10.
\<close>

theorem ws_gap_bound:
  "generate_ws dumps engine bcast (ws_connect frames budget) = (h, s) \<Longrightarrow>
     (\<forall>(l, a, b) \<in> set (trail s). a - b \<le> 11 \<and> (l \<noteq> 152 \<longrightarrow> a - b \<le> 10)) \<and>
     (h = None \<longrightarrow> send_tokens s - recv_tokens s \<le> 10)"
  using generate_ws_trail[of dumps engine bcast frames budget h s]
  by (auto simp: entry_ok_def split: if_splits)

text \<open>
  The claim as stated, that the difference never exceeds 10 at any point, fails: with
  eleven events and a client that acknowledges, the counters are 11 and 0 after the
  eleventh \<^verbatim>\<open>send_tokens += 1\<close>.
\<close>

theorem ws_gap_exceeds_ten:
  "\<not> (\<forall>(l, a, b) \<in> set (trail (snd (generate_ws word_dumps (counting_engine 11 None) no_failure
          (ws_connect [RText ''Hello'', RText ''ack''] None)))). a - b \<le> 10)"
proof -
  have "(152, 11, 0) \<in> set (trail (snd (generate_ws word_dumps (counting_engine 11 None) no_failure
          (ws_connect [RText ''Hello'', RText ''ack''] None))))"
    by code_simp
  then show ?thesis by force
qed

theorem ws_gap_bound_witness:
  "(152, 12, 1) \<in> set (trail (snd (generate_ws word_dumps (counting_engine 12 None) no_failure
          (ws_connect [RText ''Hello'', RText ''ack'', RText ''ack''] None)))) \<and>
   (12 :: int) - 1 \<le> 11 \<and>
   fst (generate_ws word_dumps (counting_engine 12 None) no_failure
          (ws_connect [RText ''Hello'', RText ''ack'', RText ''ack''] None)) = None \<and>
   send_tokens (snd (generate_ws word_dumps (counting_engine 12 None) no_failure
          (ws_connect [RText ''Hello'', RText ''ack'', RText ''ack''] None))) -
   recv_tokens (snd (generate_ws word_dumps (counting_engine 12 None) no_failure
          (ws_connect [RText ''Hello'', RText ''ack'', RText ''ack''] None))) \<le> 10"
proof -
  let ?run = "generate_ws word_dumps (counting_engine 12 None) no_failure
          (ws_connect [RText ''Hello'', RText ''ack'', RText ''ack''] None)"
  have m: "(152, 12, 1) \<in> set (trail (snd ?run))" by code_simp
  have n: "fst ?run = None" by code_simp
  have "?run = (fst ?run, snd ?run)" by simp
  from ws_gap_bound[OF this] m n show ?thesis by fastforce
qed

subsection \<open>Short outputs need no acknowledgement\<close>

text \<open>
  Claim C10. On the WebSocket transport, when the engine yields at most 10 token events
  and ends normally, the handler reads no acknowledgement frame: whatever the client has
  or has not sent after its prompt is still unread at the end, every event frame was
  sent and the socket was closed (the connection taking the frames). In every run an
  acknowledgement is read or counted only once more than 10 frames were sent, and
  \<open>recv_tokens\<close> never exceeds \<open>send_tokens\<close>.
\<close>

theorem ws_short_output_reads_no_ack:
  assumes "generate_ws dumps engine bcast (ws_connect (RText t # acks) budget) = (h, s)"
    and "bcast (leader_command (PStr t)) = None"
    and "engine (leader_args (PStr t)) = (evs, fin)"
  shows "(fin = None \<and> length evs \<le> 10 \<and> (\<forall>k. budget = Some k \<longrightarrow> length evs \<le> k) \<longrightarrow>
            h = None \<and> ws_closed s \<and> outbox s = map (event_frame dumps) evs \<and> inbox s = acks) \<and>
         (inbox s = acks \<or> 10 < send_tokens s) \<and>
         (\<forall>(l, a, b) \<in> set (trail s). (l = 156 \<longrightarrow> 10 < a) \<and> 0 \<le> b \<and> b \<le> a)"
proof -
  let ?s0 = "ws_streaming t acks budget"
  obtain r6 s6 where tl: "token_loop dumps evs fin ?s0 = (r6, s6)"
    by (cases "token_loop dumps evs fin ?s0")
  from generate_ws_started[where bcast = bcast and engine = engine and dumps = dumps
      and rest = acks and budget = budget, OF assms(2,3)] assms(1) tl
  have hs: "(h = r6 \<and> s = s6 \<and> r6 \<noteq> None) \<or> (h = None \<and> r6 = None \<and> s = s6\<lparr>ws_closed := True\<rparr>)"
    by (auto split: option.splits)
  have short: "h = None \<and> ws_closed s \<and> outbox s = map (event_frame dumps) evs \<and> inbox s = acks"
    if c: "fin = None" "length evs \<le> 10" "\<forall>k. budget = Some k \<longrightarrow> length evs \<le> k"
  proof -
    have "send_tokens ?s0 + int (length evs) \<le> 10" "0 \<le> recv_tokens ?s0"
      "\<forall>k. send_budget ?s0 = Some k \<longrightarrow> length evs \<le> k"
      using c by (simp_all add: ws_streaming_def)
    from token_loop_short[OF this, of dumps fin] tl c(1)
    have "r6 = None" "inbox s6 = acks" "outbox s6 = map (event_frame dumps) evs"
      by (auto simp: ws_streaming_def)
    with hs show ?thesis by auto
  qed
  have "0 \<le> recv_tokens ?s0" by (simp add: ws_streaming_def)
  from token_loop_reads[OF tl this] hs
  have reads: "inbox s = acks \<or> 10 < send_tokens s" by (auto simp: ws_streaming_def)
  from generate_ws_trail[OF assms(1)]
  have "\<forall>(l, a, b) \<in> set (trail s). (l = 156 \<longrightarrow> 10 < a) \<and> 0 \<le> b \<and> b \<le> a"
    by (auto simp: entry_ok_def)
  with short reads show ?thesis by blast
qed

theorem ws_short_output_reads_no_ack_witness:
  "generate_ws word_dumps hello_engine no_failure (ws_connect [RText ''Hello''] None)
     = (None, (ws_connect [] None)
          \<lparr>send_tokens := 3, outbox := [''{He}'', ''{llo}'', ''{!}''],
           broadcasts := [leader_command (PStr ''Hello'')],
           ws_calls := [leader_args (PStr ''Hello'')],
           ws_stdout := [[PStr ''starting stream, text:'', PStr ''Hello'']],
           ws_closed := True,
           trail := [(143, 0, 0), (150, 0, 0), (152, 1, 0), (158, 1, 0), (150, 1, 0),
                     (152, 2, 0), (158, 2, 0), (150, 2, 0), (152, 3, 0), (158, 3, 0)]\<rparr>) \<and>
   fst (generate_ws word_dumps hello_engine no_failure (ws_connect [RText ''Hello''] None)) = None \<and>
   ws_closed (snd (generate_ws word_dumps hello_engine no_failure (ws_connect [RText ''Hello''] None))) \<and>
   outbox (snd (generate_ws word_dumps hello_engine no_failure (ws_connect [RText ''Hello''] None)))
     = map (event_frame word_dumps) hello_events \<and>
   inbox (snd (generate_ws word_dumps hello_engine no_failure (ws_connect [RText ''Hello''] None))) = []"
proof -
  let ?run = "generate_ws word_dumps hello_engine no_failure (ws_connect [RText ''Hello''] None)"
  have run: "?run = (fst ?run, snd ?run)" by simp
  have b: "no_failure (leader_command (PStr ''Hello'')) = None" by (simp add: no_failure_def)
  have e: "hello_engine (leader_args (PStr ''Hello'')) = (hello_events, None)"
    by (simp add: hello_engine_def)
  have l: "length hello_events \<le> 10" by (simp add: hello_events_def)
  have v: "?run = (None, (ws_connect [] None)
          \<lparr>send_tokens := 3, outbox := [''{He}'', ''{llo}'', ''{!}''],
           broadcasts := [leader_command (PStr ''Hello'')],
           ws_calls := [leader_args (PStr ''Hello'')],
           ws_stdout := [[PStr ''starting stream, text:'', PStr ''Hello'']],
           ws_closed := True,
           trail := [(143, 0, 0), (150, 0, 0), (152, 1, 0), (158, 1, 0), (150, 1, 0),
                     (152, 2, 0), (158, 2, 0), (150, 2, 0), (152, 3, 0), (158, 3, 0)]\<rparr>)"
    by code_simp
  from ws_short_output_reads_no_ack[OF run b e] l
  have "fst ?run = None \<and> ws_closed (snd ?run) \<and>
     outbox (snd ?run) = map (event_frame word_dumps) hello_events \<and> inbox (snd ?run) = []"
    by simp
  with v show ?thesis by blast
qed

subsection \<open>The frames are the engine's events, in order\<close>

lemma prefix_map_take:
  "k \<le> length xs \<Longrightarrow> prefix (map f (take k xs)) (map f xs @ ys)"
proof -
  have "map f xs @ ys = map f (take k xs) @ (map f (drop k xs) @ ys)"
    by (simp flip: map_append)
  then show ?thesis by (metis prefixI)
qed

text \<open>
  Claim C6. On either transport the token-event frames handed to the client are the
  engine's events in generation order, each serialised once: at every moment of a run
  the frames sent so far are an initial segment of the serialised event list (nothing is
  reordered, dropped in the middle or sent twice), and a run that reaches its end has
  sent the whole list, followed on the streamed-HTTP transport by the sentinel alone.
  The run does reach its end when the engine ends normally and the client takes the
  frames and, on the WebSocket, has sent the acknowledgements the handler waits for.
\<close>

theorem token_frames_in_generation_order:
  "(generate_ws dumps engine bcast (ws_connect (RText t # acks) budget) = (h, s) \<and>
    bcast (leader_command (PStr t)) = None \<and> engine (leader_args (PStr t)) = (evs, fin) \<longrightarrow>
      prefix (outbox s) (map (event_frame dumps) evs) \<and>
      (h = None \<longrightarrow> outbox s = map (event_frame dumps) evs) \<and>
      (fin = None \<and> (\<forall>k. budget = Some k \<longrightarrow> length evs \<le> k) \<and>
       (\<exists>as. acks = map RText as \<and> int (length evs) - 10 \<le> int (length as)) \<longrightarrow> h = None)) \<and>
   (generate dumps engine bcast req (sse_connect d) = (h', s') \<and> request_text req = Inr tx \<and>
    bcast (leader_command tx) = None \<and> engine (leader_args tx) = (evs', fin') \<longrightarrow>
      prefix (yielded s') (map (\<lambda>ev. Data (event_frame dumps ev)) evs' @ [Data ''<EOS>'']) \<and>
      (h' = None \<longrightarrow> yielded s' = map (\<lambda>ev. Data (event_frame dumps ev)) evs' @ [Data ''<EOS>'']) \<and>
      (fin' = None \<and> (\<forall>k. d = Some k \<longrightarrow> length evs' < k) \<longrightarrow> h' = None))"
proof (intro conjI impI)
  assume a: "generate_ws dumps engine bcast (ws_connect (RText t # acks) budget) = (h, s) \<and>
    bcast (leader_command (PStr t)) = None \<and> engine (leader_args (PStr t)) = (evs, fin)"
  let ?s0 = "ws_streaming t acks budget"
  obtain r6 s6 where tl: "token_loop dumps evs fin ?s0 = (r6, s6)"
    by (cases "token_loop dumps evs fin ?s0")
  from a generate_ws_started[where bcast = bcast and engine = engine and dumps = dumps
      and rest = acks and budget = budget and t = t and evs = evs and fin = fin] tl
  have hs: "(h = r6 \<and> s = s6 \<and> r6 \<noteq> None) \<or> (h = None \<and> r6 = None \<and> s = s6\<lparr>ws_closed := True\<rparr>)"
    by (auto split: option.splits)
  then have o: "outbox s = outbox s6" "h = r6" by auto
  have o0: "outbox ?s0 = []" by (simp add: ws_streaming_def)
  from token_loop_outcome[OF tl] o0
  have oc: "(r6 = map_option Raises fin \<and> outbox s6 = map (event_frame dumps) evs) \<or>
     ((r6 = Some (Raises SendFailure) \<or> r6 = Some Blocked \<or> r6 = Some (Raises WebSocketDisconnect)) \<and>
      (\<exists>k\<le>length evs. outbox s6 = map (event_frame dumps) (take k evs)))"
    by simp
  have "\<exists>k\<le>length evs. outbox s6 = map (event_frame dumps) (take k evs)"
  proof -
    have "\<exists>k\<le>length evs. outbox s6 = map (event_frame dumps) (take k evs)"
      if "outbox s6 = map (event_frame dumps) evs"
    proof -
      from that have "length evs \<le> length evs \<and>
        outbox s6 = map (event_frame dumps) (take (length evs) evs)" by simp
      then show ?thesis by blast
    qed
    with oc show ?thesis by blast
  qed
  then obtain k where "k \<le> length evs" "outbox s6 = map (event_frame dumps) (take k evs)"
    by blast
  with o show "prefix (outbox s) (map (event_frame dumps) evs)"
    using prefix_map_take[of k evs "event_frame dumps" "[]"] by simp
  from oc o show "outbox s = map (event_frame dumps) evs" if "h = None"
    using that by auto
  show "h = None"
    if c: "fin = None \<and> (\<forall>k. budget = Some k \<longrightarrow> length evs \<le> k) \<and>
       (\<exists>as. acks = map RText as \<and> int (length evs) - 10 \<le> int (length as))"
  proof -
    from c obtain as where as: "acks = map RText as" "int (length evs) - 10 \<le> int (length as)"
      by blast
    have "inbox ?s0 = map RText as" "send_tokens ?s0 - recv_tokens ?s0 \<le> 10"
      "\<forall>k. send_budget ?s0 = Some k \<longrightarrow> length evs \<le> k"
      "send_tokens ?s0 + int (length evs) - 10 - recv_tokens ?s0 \<le> int (length as)"
      using c as by (simp_all add: ws_streaming_def)
    from token_loop_cooperative[OF this, of dumps fin] tl c have "r6 = None" by auto
    with o show ?thesis by simp
  qed
next
  assume a: "generate dumps engine bcast req (sse_connect d) = (h', s') \<and>
    request_text req = Inr tx \<and> bcast (leader_command tx) = None \<and>
    engine (leader_args tx) = (evs', fin')"
  let ?F = "\<lambda>ev. Data (event_frame dumps ev)"
  from a have run: "generate dumps engine bcast req (sse_connect d) = (h', s')"
    and rq: "request_text req = Inr tx" and bc: "bcast (leader_command tx) = None"
    and en: "engine (leader_args tx) = (evs', fin')" by simp_all
  from generate_outcome[OF run rq bc en]
  have oc: "(fin' = None \<and> h' = None \<and> yielded s' = map ?F evs' @ [Data ''<EOS>'']) \<or>
     (\<exists>e. fin' = Some e \<and> h' = Some (Raises e) \<and> yielded s' = map ?F evs') \<or>
     (h' = Some (Raises Cancelled) \<and> (\<exists>k\<le>length evs'. yielded s' = map ?F (take k evs')))"
    by simp
  from oc show "prefix (yielded s') (map ?F evs' @ [Data ''<EOS>''])"
  proof (elim disjE exE conjE)
    assume "yielded s' = map ?F evs' @ [Data ''<EOS>'']"
    then show ?thesis by simp
  next
    assume "yielded s' = map ?F evs'"
    then show ?thesis by simp
  next
    fix k assume "k \<le> length evs'" "yielded s' = map ?F (take k evs')"
    then show ?thesis using prefix_map_take[of k evs' ?F "[Data ''<EOS>'']"] by (simp only:)
  qed
  from oc show "yielded s' = map ?F evs' @ [Data ''<EOS>'']" if "h' = None"
    using that by auto
  show "h' = None" if c: "fin' = None \<and> (\<forall>k. d = Some k \<longrightarrow> length evs' < k)"
  proof -
    from c have "\<forall>k. d = Some k \<longrightarrow> length evs' < k" by simp
    from generate_drained[OF run rq bc en this] c show ?thesis by simp
  qed
qed

theorem token_frames_in_generation_order_witness:
  "outbox (snd (generate_ws word_dumps (counting_engine 12 None) no_failure
       (ws_connect [RText ''Hello'', RText ''ack'', RText ''ack''] None)))
     = map (event_frame word_dumps) (fst (counting_engine 12 None (leader_args (PStr ''Hello'')))) \<and>
   length (outbox (snd (generate_ws word_dumps (counting_engine 12 None) no_failure
       (ws_connect [RText ''Hello'', RText ''ack'', RText ''ack''] None)))) = 12 \<and>
   yielded (snd (generate word_dumps hello_engine no_failure
       (Body (PDict [(''text'', PStr ''Hello'')])) (sse_connect None)))
     = [Data ''{He}'', Data ''{llo}'', Data ''{!}'', Data ''<EOS>'']"
proof -
  let ?ws = "generate_ws word_dumps (counting_engine 12 None) no_failure
       (ws_connect [RText ''Hello'', RText ''ack'', RText ''ack''] None)"
  let ?http = "generate word_dumps hello_engine no_failure
       (Body (PDict [(''text'', PStr ''Hello'')])) (sse_connect None)"
  let ?evs = "fst (counting_engine 12 None (leader_args (PStr ''Hello'')))"
  note inst1 = token_frames_in_generation_order[where dumps = word_dumps
      and engine = "counting_engine 12 None" and bcast = no_failure and t = "''Hello''"
      and acks = "[RText ''ack'', RText ''ack'']" and budget = None
      and h = "fst ?ws" and s = "snd ?ws" and evs = ?evs and fin = None]
  have w1: "?ws = (fst ?ws, snd ?ws)" by simp
  have w2: "no_failure (leader_command (PStr ''Hello'')) = None" by (simp add: no_failure_def)
  have w3: "counting_engine 12 None (leader_args (PStr ''Hello'')) = (?evs, None)"
    by (simp add: counting_engine_def)
  have w4: "fst ?ws = None" by code_simp
  from inst1 w1 w2 w3 w4 have a: "outbox (snd ?ws) = map (event_frame word_dumps) ?evs"
    by blast
  have "length ?evs = 12" by (simp add: counting_engine_def)
  with a have b: "length (outbox (snd ?ws)) = 12" by simp
  note inst2 = token_frames_in_generation_order[where dumps = word_dumps
      and engine = hello_engine and bcast = no_failure
      and req = "Body (PDict [(''text'', PStr ''Hello'')])" and d = None
      and h' = "fst ?http" and s' = "snd ?http" and tx = "PStr ''Hello''"
      and evs' = hello_events and fin' = None]
  have h1: "?http = (fst ?http, snd ?http)" by simp
  have h2: "request_text (Body (PDict [(''text'', PStr ''Hello'')])) = Inr (PStr ''Hello'')"
    by (simp add: request_text_def request_json_def subscript_def)
  have h3: "hello_engine (leader_args (PStr ''Hello'')) = (hello_events, None)"
    by (simp add: hello_engine_def)
  have h4: "fst ?http = None" by code_simp
  from inst2 h1 h2 w2 h3 h4
  have "yielded (snd ?http) = map (\<lambda>ev. Data (event_frame word_dumps ev)) hello_events @ [Data ''<EOS>'']"
    by blast
  moreover have "map (\<lambda>ev. Data (event_frame word_dumps ev)) hello_events
      = [Data ''{He}'', Data ''{llo}'', Data ''{!}'']"
    by (simp add: hello_events_def event_frame_def event_dict_def word_dumps_def)
  ultimately have c: "yielded (snd ?http) = [Data ''{He}'', Data ''{llo}'', Data ''{!}'', Data ''<EOS>'']"
    by simp
  from a b c show ?thesis by blast
qed

subsection \<open>The end-of-stream sentinel\<close>

lemma sentinel_not_in_frames:
  "\<forall>ev\<in>set evs. event_frame dumps ev \<noteq> ''<EOS>'' \<Longrightarrow>
     Data ''<EOS>'' \<notin> set (map (\<lambda>ev. Data (event_frame dumps ev)) (take k evs))"
  by (auto dest: in_set_takeD)

text \<open>
  Claim C5. On the streamed-HTTP transport, for an engine that yields finitely many token
  events and ends normally, the items yielded to the response are the token frames in
  order followed by the sentinel \<^verbatim>\<open><EOS>\<close>: at every moment they are an initial segment of
  that list, so the sentinel never comes before a token frame, and a response that
  drains the generator gets the whole list, the sentinel last. Since a token frame (the
  serialisation of a dict) is never the text \<^verbatim>\<open><EOS>\<close>, the sentinel occurs at most once
  in any run and exactly once in a run that reaches its end.
\<close>

theorem sentinel_once_after_last_event:
  assumes "generate dumps engine bcast req (sse_connect d) = (h, s)"
    and "request_text req = Inr tx"
    and "bcast (leader_command tx) = None"
    and "engine (leader_args tx) = (evs, None)"
  shows "prefix (yielded s) (map (\<lambda>ev. Data (event_frame dumps ev)) evs @ [Data ''<EOS>'']) \<and>
         ((\<forall>k. d = Some k \<longrightarrow> length evs < k) \<longrightarrow>
            h = None \<and> yielded s = map (\<lambda>ev. Data (event_frame dumps ev)) evs @ [Data ''<EOS>'']) \<and>
         ((\<forall>ev\<in>set evs. event_frame dumps ev \<noteq> ''<EOS>'') \<longrightarrow>
            count_list (yielded s) (Data ''<EOS>'') \<le> 1 \<and>
            (Data ''<EOS>'' \<in> set (yielded s) \<longrightarrow>
               yielded s = map (\<lambda>ev. Data (event_frame dumps ev)) evs @ [Data ''<EOS>'']) \<and>
            (h = None \<longrightarrow> count_list (yielded s) (Data ''<EOS>'') = 1 \<and>
               last (yielded s) = Data ''<EOS>''))"
proof -
  let ?F = "\<lambda>ev. Data (event_frame dumps ev)"
  let ?eos = "Data ''<EOS>''"
  from generate_outcome[OF assms]
  have oc: "(h = None \<and> yielded s = map ?F evs @ [?eos]) \<or>
     (h = Some (Raises Cancelled) \<and> (\<exists>k\<le>length evs. yielded s = map ?F (take k evs)))"
    by simp
  have p: "prefix (yielded s) (map ?F evs @ [?eos])"
    using oc
  proof (elim disjE exE conjE)
    assume "yielded s = map ?F evs @ [?eos]"
    then show ?thesis by simp
  next
    fix k assume "k \<le> length evs" "yielded s = map ?F (take k evs)"
    then show ?thesis using prefix_map_take[of k evs ?F "[?eos]"] by (simp only:)
  qed
  have dr: "h = None \<and> yielded s = map ?F evs @ [?eos]"
    if c: "\<forall>k. d = Some k \<longrightarrow> length evs < k"
    using generate_drained[OF assms c] by simp
  have once: "count_list (yielded s) ?eos \<le> 1 \<and>
      (?eos \<in> set (yielded s) \<longrightarrow> yielded s = map ?F evs @ [?eos]) \<and>
      (h = None \<longrightarrow> count_list (yielded s) ?eos = 1 \<and> last (yielded s) = ?eos)"
    if c: "\<forall>ev\<in>set evs. event_frame dumps ev \<noteq> ''<EOS>''"
    using oc
  proof (elim disjE exE conjE)
    assume a: "h = None" "yielded s = map ?F evs @ [?eos]"
    from sentinel_not_in_frames[OF c, of "length evs"]
    have "count_list (map ?F evs) ?eos = 0" by (simp add: count_list_0_iff)
    with a show ?thesis by simp
  next
    fix k assume a: "h = Some (Raises Cancelled)" "yielded s = map ?F (take k evs)"
    from sentinel_not_in_frames[OF c, of k] a
    have "?eos \<notin> set (yielded s)" by simp
    then have "count_list (yielded s) ?eos = 0" "?eos \<notin> set (yielded s)"
      by (simp_all add: count_list_0_iff)
    with a show ?thesis by simp
  qed
  from p dr once show ?thesis by blast
qed

theorem sentinel_once_after_last_event_witness:
  "yielded (snd (generate word_dumps hello_engine no_failure
       (Body (PDict [(''text'', PStr ''Hello'')])) (sse_connect None)))
     = map (\<lambda>ev. Data (event_frame word_dumps ev)) hello_events @ [Data ''<EOS>''] \<and>
   count_list (yielded (snd (generate word_dumps hello_engine no_failure
       (Body (PDict [(''text'', PStr ''Hello'')])) (sse_connect None)))) (Data ''<EOS>'') = 1 \<and>
   last (yielded (snd (generate word_dumps hello_engine no_failure
       (Body (PDict [(''text'', PStr ''Hello'')])) (sse_connect None)))) = Data ''<EOS>''"
proof -
  let ?http = "generate word_dumps hello_engine no_failure
       (Body (PDict [(''text'', PStr ''Hello'')])) (sse_connect None)"
  have h1: "?http = (fst ?http, snd ?http)" by simp
  have h2: "request_text (Body (PDict [(''text'', PStr ''Hello'')])) = Inr (PStr ''Hello'')"
    by (simp add: request_text_def request_json_def subscript_def)
  have h3: "no_failure (leader_command (PStr ''Hello'')) = None" by (simp add: no_failure_def)
  have h4: "hello_engine (leader_args (PStr ''Hello'')) = (hello_events, None)"
    by (simp add: hello_engine_def)
  have h5: "\<forall>k. (None :: nat option) = Some k \<longrightarrow> length hello_events < k" by simp
  have h6: "\<forall>ev\<in>set hello_events. event_frame word_dumps ev \<noteq> ''<EOS>''"
    by (simp add: hello_events_def event_frame_def event_dict_def word_dumps_def)
  from sentinel_once_after_last_event[OF h1 h2 h3 h4] h5 h6 show ?thesis by blast
qed

subsection \<open>A failure of the engine on the leader\<close>

lemma token_loop_closed:
  "token_loop dumps evs fin s = (r, s') \<Longrightarrow> ws_closed s' = ws_closed s"
proof (induction evs arbitrary: s r s')
  case Nil
  then show ?case by (cases fin) auto
next
  case (Cons ev evs)
  obtain r1 s1 where st: "send_text (event_frame dumps ev) (visit 150 s) = (r1, s1)"
    by (cases "send_text (event_frame dumps ev) (visit 150 s)")
  note f1 = send_text_fields[OF st]
  show ?case
  proof (cases r1)
    case (Some h)
    with st Cons.prems f1 show ?thesis by (auto simp: visit_def)
  next
    case None
    obtain r2 s2 where al: "ack_loop (visit 152 (s1\<lparr>send_tokens := send_tokens s1 + 1\<rparr>)) = (r2, s2)"
      by (cases "ack_loop (visit 152 (s1\<lparr>send_tokens := send_tokens s1 + 1\<rparr>))")
    note f2 = ack_loop_fields[OF al]
    show ?thesis
    proof (cases r2)
      case (Some h)
      with None st al Cons.prems f1 f2 show ?thesis by (auto simp: visit_def)
    next
      case None2: None
      with None st al Cons.prems have "token_loop dumps evs fin (visit 158 s2) = (r, s')"
        by simp
      from Cons.IH[OF this] f1 f2 show ?thesis by (simp add: visit_def)
    qed
  qed
qed

text \<open>
  Claim C7. When the engine raises during the leader's generation call, no handler
  catches it. On the WebSocket the run never ends normally and never reaches
  \<^verbatim>\<open>websocket.close()\<close>: the exception leaves \<^verbatim>\<open>generate_ws\<close>, unless the transport has
  stopped the handler before (a failed send, a disconnection, or an acknowledgement
  that never comes); with a client that takes the frames and acknowledges, it is the
  engine's exception that leaves the handler, after the frames of the events produced
  before it. On the streamed-HTTP transport the exception leaves the response generator,
  unless the response was cancelled before, and no sentinel is yielded. What the server
  framework then tells the client lies outside \<^verbatim>\<open>web.py\<close>.
\<close>

theorem engine_failure_propagates:
  "(generate_ws dumps engine bcast (ws_connect (RText t # acks) budget) = (h, s) \<and>
    bcast (leader_command (PStr t)) = None \<and>
    engine (leader_args (PStr t)) = (evs, Some e) \<longrightarrow>
      h \<noteq> None \<and> \<not> ws_closed s \<and>
      (h = Some (Raises e) \<or> h = Some (Raises SendFailure) \<or> h = Some Blocked \<or>
       h = Some (Raises WebSocketDisconnect)) \<and>
      ((\<forall>k. budget = Some k \<longrightarrow> length evs \<le> k) \<and>
       (\<exists>as. acks = map RText as \<and> int (length evs) - 10 \<le> int (length as)) \<longrightarrow>
         h = Some (Raises e) \<and> outbox s = map (event_frame dumps) evs)) \<and>
   (generate dumps engine bcast req (sse_connect d) = (h', s') \<and> request_text req = Inr tx \<and>
    bcast (leader_command tx) = None \<and> engine (leader_args tx) = (evs', Some e') \<longrightarrow>
      (h' = Some (Raises e') \<or> h' = Some (Raises Cancelled)) \<and>
      prefix (yielded s') (map (\<lambda>ev. Data (event_frame dumps ev)) evs') \<and>
      ((\<forall>k. d = Some k \<longrightarrow> length evs' < k) \<longrightarrow>
         h' = Some (Raises e') \<and> yielded s' = map (\<lambda>ev. Data (event_frame dumps ev)) evs'))"
proof (intro conjI impI)
  assume a: "generate_ws dumps engine bcast (ws_connect (RText t # acks) budget) = (h, s) \<and>
    bcast (leader_command (PStr t)) = None \<and>
    engine (leader_args (PStr t)) = (evs, Some e)"
  let ?s0 = "ws_streaming t acks budget"
  obtain r6 s6 where tl: "token_loop dumps evs (Some e) ?s0 = (r6, s6)"
    by (cases "token_loop dumps evs (Some e) ?s0")
  have o0: "outbox ?s0 = []" "\<not> ws_closed ?s0" by (simp_all add: ws_streaming_def)
  from token_loop_outcome[OF tl] o0
  have oc: "(r6 = Some (Raises e) \<and> outbox s6 = map (event_frame dumps) evs) \<or>
     (r6 = Some (Raises SendFailure) \<or> r6 = Some Blocked \<or> r6 = Some (Raises WebSocketDisconnect))"
    by auto
  then have ne: "r6 \<noteq> None" by auto
  from a generate_ws_started[where bcast = bcast and engine = engine and dumps = dumps
      and rest = acks and budget = budget and t = t and evs = evs and fin = "Some e"] tl ne
  have hs: "h = r6" "s = s6" by (auto split: option.splits)
  from ne hs show "h \<noteq> None" by simp
  from token_loop_closed[OF tl] o0 hs show "\<not> ws_closed s" by simp
  from oc hs show "h = Some (Raises e) \<or> h = Some (Raises SendFailure) \<or> h = Some Blocked \<or>
       h = Some (Raises WebSocketDisconnect)" by auto
  assume c: "(\<forall>k. budget = Some k \<longrightarrow> length evs \<le> k) \<and>
       (\<exists>as. acks = map RText as \<and> int (length evs) - 10 \<le> int (length as))"
  then obtain as where as: "acks = map RText as" "int (length evs) - 10 \<le> int (length as)"
    by blast
  have "inbox ?s0 = map RText as" "send_tokens ?s0 - recv_tokens ?s0 \<le> 10"
    "\<forall>k. send_budget ?s0 = Some k \<longrightarrow> length evs \<le> k"
    "send_tokens ?s0 + int (length evs) - 10 - recv_tokens ?s0 \<le> int (length as)"
    using c as by (simp_all add: ws_streaming_def)
  from token_loop_cooperative[OF this, of dumps "Some e"] tl o0 hs
  have r: "h = Some (Raises e)" "outbox s = map (event_frame dumps) evs" by auto
  from r show "h = Some (Raises e)" by simp
  from r show "outbox s = map (event_frame dumps) evs" by simp
next
  assume a: "generate dumps engine bcast req (sse_connect d) = (h', s') \<and>
    request_text req = Inr tx \<and> bcast (leader_command tx) = None \<and>
    engine (leader_args tx) = (evs', Some e')"
  let ?F = "\<lambda>ev. Data (event_frame dumps ev)"
  from a have run: "generate dumps engine bcast req (sse_connect d) = (h', s')"
    and rq: "request_text req = Inr tx" and bc: "bcast (leader_command tx) = None"
    and en: "engine (leader_args tx) = (evs', Some e')" by simp_all
  from generate_outcome[OF run rq bc en]
  have oc: "(h' = Some (Raises e') \<and> yielded s' = map ?F evs') \<or>
     (h' = Some (Raises Cancelled) \<and> (\<exists>k\<le>length evs'. yielded s' = map ?F (take k evs')))"
    by simp
  from oc show "h' = Some (Raises e') \<or> h' = Some (Raises Cancelled)" by auto
  from oc show "prefix (yielded s') (map ?F evs')"
  proof (elim disjE exE conjE)
    assume "yielded s' = map ?F evs'"
    then show ?thesis by simp
  next
    fix k assume "k \<le> length evs'" "yielded s' = map ?F (take k evs')"
    then show ?thesis using prefix_map_take[of k evs' ?F "[]"] by simp
  qed
  assume c: "\<forall>k. d = Some k \<longrightarrow> length evs' < k"
  from generate_drained[OF run rq bc en c]
  have r: "h' = Some (Raises e')" "yielded s' = map ?F evs'" by auto
  from r show "h' = Some (Raises e')" by simp
  from r show "yielded s' = map ?F evs'" by simp
qed

theorem engine_failure_propagates_witness:
  "fst (generate_ws word_dumps (counting_engine 2 (Some (EngineFailure ''out of memory'')))
       no_failure (ws_connect [RText ''Hello''] None))
     = Some (Raises (EngineFailure ''out of memory'')) \<and>
   outbox (snd (generate_ws word_dumps (counting_engine 2 (Some (EngineFailure ''out of memory'')))
       no_failure (ws_connect [RText ''Hello''] None))) = [''{w}'', ''{w}''] \<and>
   fst (generate word_dumps (counting_engine 2 (Some (EngineFailure ''out of memory'')))
       no_failure (Body (PDict [(''text'', PStr ''Hello'')])) (sse_connect None))
     = Some (Raises (EngineFailure ''out of memory'')) \<and>
   yielded (snd (generate word_dumps (counting_engine 2 (Some (EngineFailure ''out of memory'')))
       no_failure (Body (PDict [(''text'', PStr ''Hello'')])) (sse_connect None)))
     = [Data ''{w}'', Data ''{w}'']"
proof -
  let ?eng = "counting_engine 2 (Some (EngineFailure ''out of memory''))"
  let ?ws = "generate_ws word_dumps ?eng no_failure (ws_connect [RText ''Hello''] None)"
  let ?http = "generate word_dumps ?eng no_failure
       (Body (PDict [(''text'', PStr ''Hello'')])) (sse_connect None)"
  let ?evs = "fst (?eng (leader_args (PStr ''Hello'')))"
  note inst = engine_failure_propagates[where dumps = word_dumps and engine = ?eng
      and bcast = no_failure and t = "''Hello''" and acks = "[]" and budget = None
      and h = "fst ?ws" and s = "snd ?ws" and evs = ?evs and e = "EngineFailure ''out of memory''"
      and req = "Body (PDict [(''text'', PStr ''Hello'')])" and d = None
      and h' = "fst ?http" and s' = "snd ?http" and tx = "PStr ''Hello''"
      and evs' = ?evs and e' = "EngineFailure ''out of memory''"]
  have w1: "?ws = (fst ?ws, snd ?ws)" by simp
  have w2: "no_failure (leader_command (PStr ''Hello'')) = None" by (simp add: no_failure_def)
  have w3: "?eng (leader_args (PStr ''Hello'')) = (?evs, Some (EngineFailure ''out of memory''))"
    by (simp add: counting_engine_def)
  have w4: "\<forall>k. (None :: nat option) = Some k \<longrightarrow> length ?evs \<le> k" by simp
  have w5: "\<exists>as. ([] :: recv_result list) = map RText as \<and> int (length ?evs) - 10 \<le> int (length as)"
    by (simp add: counting_engine_def)
  have h1: "?http = (fst ?http, snd ?http)" by simp
  have h2: "request_text (Body (PDict [(''text'', PStr ''Hello'')])) = Inr (PStr ''Hello'')"
    by (simp add: request_text_def request_json_def subscript_def)
  have h3: "\<forall>k. (None :: nat option) = Some k \<longrightarrow> length ?evs < k" by simp
  have fr: "map (event_frame word_dumps) ?evs = [''{w}'', ''{w}'']"
    by (simp add: counting_engine_def event_frame_def event_dict_def word_dumps_def
        numeral_2_eq_2)
  from inst w1 w2 w3 w4 w5
  have a: "fst ?ws = Some (Raises (EngineFailure ''out of memory''))"
    "outbox (snd ?ws) = map (event_frame word_dumps) ?evs" by blast+
  from inst h1 h2 w2 w3 h3
  have b: "fst ?http = Some (Raises (EngineFailure ''out of memory''))"
    "yielded (snd ?http) = map (\<lambda>ev. Data (event_frame word_dumps ev)) ?evs" by blast+
  from fr have "map (\<lambda>ev. Data (event_frame word_dumps ev)) ?evs = [Data ''{w}'', Data ''{w}'']"
    by (simp add: counting_engine_def numeral_2_eq_2)
  with a b fr show ?thesis by simp
qed

subsection \<open>The generation parameters are constants\<close>



subsection \<open>What a follower does with an exception\<close>

lemma follower_try_log:
  "follower_try gen b st = (st', r) \<Longrightarrow>
     log_lines st' = log_lines st \<and> iterations st' = iterations st"
  by (auto simp: follower_try_def broadcast_recv_def Let_def
      split: bcast_event.splits sum.splits)

lemma follower_try_engine_blind:
  "fst (follower_try gen b st) = fst (follower_try gen' b st)"
  by (auto simp: follower_try_def broadcast_recv_def Let_def
      split: bcast_event.splits sum.splits)

lemma follower_step_alt:
  "follower_step gen b st =
     (fst (follower_try gen b st))\<lparr>iterations := iterations (fst (follower_try gen b st)) + 1\<rparr>"
  by (cases "follower_try gen b st") (auto simp: follower_step_def split: option.splits)

text \<open>
  Claim C4, as amended. When a follower's Generation Engine call raises, the follower
  loop discards the failure: \<^verbatim>\<open>except: pass\<close> catches it, no line is logged (neither the
  failure nor the command), and the loop goes on to wait for the next broadcast in the
  very state a successful call would have left.
\<close>

theorem follower_failure_discarded:
  "follower_try gen b st = (st', Some e) \<Longrightarrow>
     log_lines (follower_step gen b st) = log_lines st \<and>
     follower_step gen b st = st'\<lparr>iterations := iterations st + 1\<rparr> \<and>
     follower_step gen b st = follower_step no_failure b st \<and>
     follower_loop gen (b # bs) st = follower_loop gen bs (st'\<lparr>iterations := iterations st + 1\<rparr>)"
proof -
  assume a: "follower_try gen b st = (st', Some e)"
  from follower_try_log[OF a] have f: "log_lines st' = log_lines st" "iterations st' = iterations st"
    by simp_all
  from a f have s: "follower_step gen b st = st'\<lparr>iterations := iterations st + 1\<rparr>"
    by (simp add: follower_step_def)
  have "follower_step gen b st = follower_step no_failure b st"
    using follower_try_engine_blind[of gen b st no_failure]
    by (simp add: follower_step_alt)
  with s f show ?thesis by simp
qed

text \<open>
  The claim as stated, that the failure is logged with the command, fails: after a call
  that raised, the follower's log is empty.
\<close>

theorem follower_failure_not_logged:
  "snd (follower_try failing_generate (BcastDelivers (leader_command (PStr ''Hello''))) follower_init)
     = Some (EngineFailure ''out of memory'') \<and>
   engine_calls (follower_step failing_generate (BcastDelivers (leader_command (PStr ''Hello'')))
       follower_init) = [leader_args (PStr ''Hello'')] \<and>
   log_lines (follower_step failing_generate (BcastDelivers (leader_command (PStr ''Hello'')))
       follower_init) = []"
  by (simp add: follower_step_def follower_try_def broadcast_recv_def getitem_def
      leader_command_def leader_args_def failing_generate_def follower_init_def Let_def)

theorem follower_failure_discarded_witness:
  "follower_loop failing_generate
      [BcastDelivers (leader_command (PStr ''Hello'')), BcastDelivers (leader_command (PStr ''Bye''))]
      follower_init
     = \<lparr>engine_calls = [leader_args (PStr ''Hello''), leader_args (PStr ''Bye'')],
        log_lines = [], iterations = 2\<rparr> \<and>
   follower_step failing_generate (BcastDelivers (leader_command (PStr ''Hello''))) follower_init
     = follower_step no_failure (BcastDelivers (leader_command (PStr ''Hello''))) follower_init"
proof -
  let ?b = "BcastDelivers (leader_command (PStr ''Hello''))"
  let ?st' = "follower_init\<lparr>engine_calls := [leader_args (PStr ''Hello'')]\<rparr>"
  have t: "follower_try failing_generate ?b follower_init
      = (?st', Some (EngineFailure ''out of memory''))"
    by (simp add: follower_try_def broadcast_recv_def getitem_def leader_command_def
        leader_args_def failing_generate_def follower_init_def Let_def)
  note inst = follower_failure_discarded[OF t, of "[BcastDelivers (leader_command (PStr ''Bye''))]"]
  from inst
  have a: "follower_step failing_generate ?b follower_init = follower_step no_failure ?b follower_init"
    and b: "follower_loop failing_generate [?b, BcastDelivers (leader_command (PStr ''Bye''))] follower_init
      = follower_loop failing_generate [BcastDelivers (leader_command (PStr ''Bye''))]
          (?st'\<lparr>iterations := iterations follower_init + 1\<rparr>)"
    by blast+
  have "follower_loop failing_generate [BcastDelivers (leader_command (PStr ''Bye''))]
          (?st'\<lparr>iterations := iterations follower_init + 1\<rparr>)
     = \<lparr>engine_calls = [leader_args (PStr ''Hello''), leader_args (PStr ''Bye'')],
        log_lines = [], iterations = 2\<rparr>"
    by (simp add: follower_step_def follower_try_def broadcast_recv_def getitem_def
        leader_command_def leader_args_def failing_generate_def follower_init_def Let_def)
  with a b show ?thesis by simp
qed

text \<open>
  Claim C8, as amended. A failure of the Broadcast Channel does not stop a follower: the
  exception its \<^verbatim>\<open>broadcast_object_list\<close> call raises is caught by the same
  \<^verbatim>\<open>except: pass\<close>, nothing else happens in that iteration, and the loop calls the
  channel again and serves whatever round comes next. On the leader a broadcast that
  raises leaves the handler of that request as an uncaught exception, before any engine
  call and before any frame.
\<close>

theorem broadcast_failure_not_fatal:
  "follower_step gen (BcastRaises e) st = st\<lparr>iterations := iterations st + 1\<rparr> \<and>
   follower_loop gen (BcastRaises e # bs) st
     = follower_loop gen bs (st\<lparr>iterations := iterations st + 1\<rparr>) \<and>
   (bcast (leader_command (PStr t)) = Some e \<longrightarrow>
      generate_ws dumps engine bcast (ws_connect (RText t # rest) budget)
        = (Some (Raises e), ws_connect rest budget)) \<and>
   (request_text req = Inr tx \<and> bcast (leader_command tx) = Some e \<longrightarrow>
      generate dumps engine bcast req (sse_connect d) = (Some (Raises e), sse_connect d))"
  by (simp add: follower_step_def follower_try_def generate_ws_def receive_text_def
      ws_connect_def generate_def Let_def)

text \<open>
  The claim as stated, that no process goes on serving rounds after a broadcast call has
  failed, fails: a follower whose first broadcast call raises runs the engine for the
  command that the second one delivers.
\<close>

theorem follower_survives_broadcast_failure:
  "follower_loop no_failure
      [BcastRaises (BroadcastFailure ''rank 1 is gone''), BcastDelivers (leader_command (PStr ''Hello''))]
      follower_init
     = \<lparr>engine_calls = [leader_args (PStr ''Hello'')], log_lines = [], iterations = 2\<rparr>"
  by (simp add: follower_step_def follower_try_def broadcast_recv_def getitem_def
      leader_command_def leader_args_def no_failure_def follower_init_def Let_def)

theorem broadcast_failure_not_fatal_witness:
  "follower_loop no_failure
      [BcastRaises (BroadcastFailure ''rank 1 is gone''), BcastDelivers (leader_command (PStr ''Hello''))]
      follower_init
     = follower_loop no_failure [BcastDelivers (leader_command (PStr ''Hello''))]
         (follower_init\<lparr>iterations := 1\<rparr>) \<and>
   generate_ws word_dumps hello_engine (\<lambda>c. Some (BroadcastFailure ''rank 1 is gone''))
       (ws_connect [RText ''Hello''] None)
     = (Some (Raises (BroadcastFailure ''rank 1 is gone'')), ws_connect [] None)"
proof -
  note inst = broadcast_failure_not_fatal[where gen = no_failure
      and e = "BroadcastFailure ''rank 1 is gone''" and st = follower_init
      and bs = "[BcastDelivers (leader_command (PStr ''Hello''))]"
      and bcast = "\<lambda>c. Some (BroadcastFailure ''rank 1 is gone'')" and t = "''Hello''"
      and dumps = word_dumps and engine = hello_engine and rest = "[]" and budget = None]
  have i: "iterations follower_init + 1 = 1" by (simp add: follower_init_def)
  from inst i show ?thesis by simp
qed

subsection \<open>Connections taking turns on the leader\<close>

lemma token_loop_iteration:
  "token_loop dumps (ev # evs) fin s =
     (case ws_iteration dumps ev s of
        (Some h, s1) \<Rightarrow> (Some h, s1)
      | (None, s1) \<Rightarrow> token_loop dumps evs fin s1)"
  by (simp add: ws_iteration_def split: prod.splits option.splits)

lemma task_step_stopped:
  "((\<lambda>t. fst (task_step dumps engine bcast t)) ^^ n) (WsStopped h s) = WsStopped h s"
  "((\<lambda>t. fst (task_step dumps engine bcast t)) ^^ n) (HttpStopped h' s') = HttpStopped h' s'"
  by (induction n) simp_all

text \<open>
  The steps agree with the handlers: a connection that is resumed again and again, on
  its own, ends as \<^verbatim>\<open>generate_ws\<close> or \<^verbatim>\<open>generate\<close> do.
\<close>

lemma ws_streaming_steps:
  "((\<lambda>t. fst (task_step dumps engine bcast t)) ^^ Suc (length evs)) (WsStreaming evs fin s) =
     (case token_loop dumps evs fin s of
        (Some h, s6) \<Rightarrow> WsStopped (Some h) s6
      | (None, s6) \<Rightarrow> WsStopped None (s6\<lparr>ws_closed := True\<rparr>))"
proof (induction evs arbitrary: s)
  case Nil
  then show ?case by (cases fin) simp_all
next
  case (Cons ev evs)
  let ?f = "\<lambda>t. fst (task_step dumps engine bcast t)"
  obtain r s1 where it: "ws_iteration dumps ev s = (r, s1)" by (cases "ws_iteration dumps ev s")
  have unfold: "(?f ^^ Suc (length (ev # evs))) (WsStreaming (ev # evs) fin s)
      = (?f ^^ Suc (length evs)) (?f (WsStreaming (ev # evs) fin s))"
    by (simp only: length_Cons funpow_Suc_right o_apply)
  show ?case
  proof (cases r)
    case (Some h)
    with it have "?f (WsStreaming (ev # evs) fin s) = WsStopped (Some h) s1" by simp
    with unfold task_step_stopped
    have "(?f ^^ Suc (length (ev # evs))) (WsStreaming (ev # evs) fin s) = WsStopped (Some h) s1"
      by simp
    moreover from it Some have "token_loop dumps (ev # evs) fin s = (Some h, s1)"
      by (simp del: token_loop.simps add: token_loop_iteration)
    ultimately show ?thesis by simp
  next
    case None
    with it have "?f (WsStreaming (ev # evs) fin s) = WsStreaming evs fin s1" by simp
    with unfold Cons.IH[of s1]
    have "(?f ^^ Suc (length (ev # evs))) (WsStreaming (ev # evs) fin s) =
       (case token_loop dumps evs fin s1 of
          (Some h, s6) \<Rightarrow> WsStopped (Some h) s6
        | (None, s6) \<Rightarrow> WsStopped None (s6\<lparr>ws_closed := True\<rparr>))"
      by simp
    moreover from it None have "token_loop dumps (ev # evs) fin s = token_loop dumps evs fin s1"
      by (simp del: token_loop.simps add: token_loop_iteration)
    ultimately show ?thesis by simp
  qed
qed

lemma ws_task_is_generate_ws:
  assumes "engine (leader_args (PStr t)) = (evs, fin)"
  shows "((\<lambda>t. fst (task_step dumps engine bcast t)) ^^ (length evs + 2))
            (WsWaiting (ws_connect (RText t # rest) budget))
         = (case generate_ws dumps engine bcast (ws_connect (RText t # rest) budget) of
              (h, s) \<Rightarrow> WsStopped h s)"
proof -
  let ?f = "\<lambda>t. fst (task_step dumps engine bcast t)"
  let ?s0 = "ws_connect (RText t # rest) budget"
  have unfold: "(?f ^^ (length evs + 2)) (WsWaiting ?s0) = (?f ^^ Suc (length evs)) (?f (WsWaiting ?s0))"
    by (simp only: funpow_Suc_right o_apply add_2_eq_Suc')
  show ?thesis
  proof (cases "bcast (leader_command (PStr t))")
    case (Some e)
    then have "?f (WsWaiting ?s0) = WsStopped (Some (Raises e)) (ws_connect rest budget)"
      by (simp add: receive_text_def ws_connect_def)
    with unfold task_step_stopped
    have "(?f ^^ (length evs + 2)) (WsWaiting ?s0) = WsStopped (Some (Raises e)) (ws_connect rest budget)"
      by simp
    moreover from Some have "generate_ws dumps engine bcast ?s0 = (Some (Raises e), ws_connect rest budget)"
      by (simp add: generate_ws_def receive_text_def ws_connect_def)
    ultimately show ?thesis by simp
  next
    case None
    with assms have "?f (WsWaiting ?s0) = WsStreaming evs fin (ws_streaming t rest budget)"
      by (simp add: receive_text_def ws_connect_def ws_streaming_def visit_def Let_def)
    with unfold ws_streaming_steps[where dumps = dumps and engine = engine and bcast = bcast and evs = evs
        and fin = fin and s = "ws_streaming t rest budget"]
    have "(?f ^^ (length evs + 2)) (WsWaiting ?s0) =
       (case token_loop dumps evs fin (ws_streaming t rest budget) of
          (Some h, s6) \<Rightarrow> WsStopped (Some h) s6
        | (None, s6) \<Rightarrow> WsStopped None (s6\<lparr>ws_closed := True\<rparr>))"
      by simp
    with generate_ws_started[where bcast = bcast and engine = engine and dumps = dumps
        and rest = rest and budget = budget, OF None assms]
    show ?thesis by (simp split: prod.splits option.splits)
  qed
qed

lemma http_streaming_steps:
  "((\<lambda>t. fst (task_step dumps engine bcast t)) ^^ Suc (length evs)) (HttpStreaming evs fin s) =
     (case stream_loop dumps evs fin s of (h, s') \<Rightarrow> HttpStopped h s')"
proof (induction evs arbitrary: s)
  case Nil
  then show ?case by (cases fin) (simp_all split: prod.splits)
next
  case (Cons ev evs)
  let ?f = "\<lambda>t. fst (task_step dumps engine bcast t)"
  obtain r s1 where y: "yield_item (Data (event_frame dumps ev)) s = (r, s1)"
    by (cases "yield_item (Data (event_frame dumps ev)) s")
  have unfold: "(?f ^^ Suc (length (ev # evs))) (HttpStreaming (ev # evs) fin s)
      = (?f ^^ Suc (length evs)) (?f (HttpStreaming (ev # evs) fin s))"
    by (simp only: length_Cons funpow_Suc_right o_apply)
  show ?case
  proof (cases r)
    case (Some h)
    with y have "?f (HttpStreaming (ev # evs) fin s) = HttpStopped (Some h) s1" by simp
    with unfold task_step_stopped
    have "(?f ^^ Suc (length (ev # evs))) (HttpStreaming (ev # evs) fin s) = HttpStopped (Some h) s1"
      by simp
    with y Some show ?thesis by simp
  next
    case None
    with y have "?f (HttpStreaming (ev # evs) fin s) = HttpStreaming evs fin s1" by simp
    with unfold Cons.IH[of s1] y None show ?thesis by simp
  qed
qed

lemma http_task_is_generate:
  assumes "request_text req = Inr tx" "engine (leader_args tx) = (evs, fin)"
  shows "((\<lambda>t. fst (task_step dumps engine bcast t)) ^^ (length evs + 3)) (HttpWaiting req s)
         = (case generate dumps engine bcast req s of (h, s') \<Rightarrow> HttpStopped h s')"
proof -
  let ?f = "\<lambda>t. fst (task_step dumps engine bcast t)"
  have three: "length evs + 3 = Suc (Suc (Suc (length evs)))" by simp
  have unfold: "(?f ^^ (length evs + 3)) (HttpWaiting req s)
      = (?f ^^ Suc (Suc (length evs))) (?f (HttpWaiting req s))"
    by (simp only: three funpow_Suc_right o_apply)
  show ?thesis
  proof (cases "bcast (leader_command tx)")
    case (Some e)
    with assms have "?f (HttpWaiting req s) = HttpStopped (Some (Raises e)) s" by simp
    with unfold task_step_stopped
    have "(?f ^^ (length evs + 3)) (HttpWaiting req s) = HttpStopped (Some (Raises e)) s" by simp
    with Some assms show ?thesis by (simp add: generate_def)
  next
    case None
    let ?s1 = "s\<lparr>h_broadcasts := h_broadcasts s @ [leader_command tx]\<rparr>"
    from None assms have "?f (HttpWaiting req s) = HttpResponding tx ?s1" by simp
    with unfold have unfold2: "(?f ^^ (length evs + 3)) (HttpWaiting req s)
        = (?f ^^ Suc (length evs)) (?f (HttpResponding tx ?s1))"
      by (simp only: funpow_Suc_right o_apply)
    show ?thesis
    proof (cases "demand s = Some 0")
      case True
      then have "?f (HttpResponding tx ?s1) = HttpStopped (Some (Raises Cancelled)) ?s1" by simp
      with unfold2 task_step_stopped
      have "(?f ^^ (length evs + 3)) (HttpWaiting req s) = HttpStopped (Some (Raises Cancelled)) ?s1"
        by simp
      with None assms True show ?thesis by (simp add: generate_def event_source_response_def)
    next
      case False
      let ?s2 = "s\<lparr>h_broadcasts := h_broadcasts s @ [leader_command tx],
                   h_stdout := h_stdout s @ [[PStr ''starting stream, text:'', tx]],
                   h_calls := h_calls s @ [leader_args tx]\<rparr>"
      from False assms have "?f (HttpResponding tx ?s1) = HttpStreaming evs fin ?s2"
        by (simp add: Let_def split: option.splits nat.splits)
      with unfold2 http_streaming_steps[where dumps = dumps and engine = engine and bcast = bcast
          and evs = evs and fin = fin and s = ?s2]
      have "(?f ^^ (length evs + 3)) (HttpWaiting req s) =
         (case stream_loop dumps evs fin ?s2 of (h, s') \<Rightarrow> HttpStopped h s')"
        by simp
      with None assms False show ?thesis
        by (simp add: generate_def event_source_response_def generate_stream_def Let_def
            split: option.splits nat.splits)
    qed
  qed
qed

lemma length_filter_update:
  "i < length xs \<Longrightarrow>
     length (filter P (xs[i := y])) + (if P (xs ! i) then 1 else 0)
       = length (filter P xs) + (if P y then 1 else 0)"
proof (induction xs arbitrary: i)
  case Nil
  then show ?case by simp
next
  case (Cons x xs)
  then show ?case by (cases i) auto
qed

lemma in_flight_leader_step:
  assumes "i < length (tasks l)"
  shows "in_flight (leader_step dumps engine bcast i l)
           + (if round_in_flight (tasks l ! i) then 1 else 0)
         = in_flight l
           + (if round_in_flight (fst (task_step dumps engine bcast (tasks l ! i))) then 1 else 0)"
proof -
  obtain t cmds where ts: "task_step dumps engine bcast (tasks l ! i) = (t, cmds)"
    by (cases "task_step dumps engine bcast (tasks l ! i)")
  with assms have "tasks (leader_step dumps engine bcast i l) = (tasks l)[i := t]"
    by (simp add: leader_step_def)
  with length_filter_update[OF assms, of round_in_flight t] ts
  show ?thesis by (simp add: in_flight_def)
qed

lemma task_step_no_new_round:
  "\<not> waiting t \<Longrightarrow> round_in_flight (fst (task_step dumps engine bcast t)) \<Longrightarrow> round_in_flight t"
proof (cases t)
  case (WsStreaming evs fin s)
  then show ?thesis by simp
next
  case (HttpResponding tx s)
  then show ?thesis by simp
next
  case (HttpStreaming evs fin s)
  then show ?thesis by simp
qed auto

lemma task_step_one_command:
  "length (snd (task_step dumps engine bcast t)) \<le> 1"
proof (cases t)
  case (WsWaiting s0)
  then show ?thesis
    by (auto simp: Let_def split: prod.splits sum.splits halt.splits option.splits)
next
  case (WsStreaming evs fin s)
  then show ?thesis
    by (cases evs; cases fin) (auto split: prod.splits option.splits)
next
  case (HttpWaiting req s)
  then show ?thesis
    by (auto simp: Let_def split: prod.splits sum.splits option.splits)
next
  case (HttpResponding tx s)
  then show ?thesis
    by (auto simp: Let_def split: prod.splits option.splits nat.splits)
next
  case (HttpStreaming evs fin s)
  then show ?thesis
    by (cases evs; cases fin) (auto split: prod.splits option.splits)
qed auto

lemma serialized_keeps_one_round:
  "serialized dumps engine bcast sched l \<Longrightarrow> in_flight l \<le> 1 \<Longrightarrow>
     in_flight (run_schedule dumps engine bcast sched l) \<le> 1"
proof (induction sched arbitrary: l)
  case Nil
  then show ?case by simp
next
  case (Cons i sched)
  let ?l' = "leader_step dumps engine bcast i l"
  have "in_flight ?l' \<le> 1"
  proof (cases "i < length (tasks l)")
    case False
    with Cons.prems(2) show ?thesis by (simp add: leader_step_def)
  next
    case True
    note eq = in_flight_leader_step[OF True, of dumps engine bcast]
    show ?thesis
    proof (cases "waiting (tasks l ! i)")
      case True
      with Cons.prems(1) \<open>i < length (tasks l)\<close> have "in_flight l = 0" by simp
      with eq show ?thesis by (simp split: if_splits)
    next
      case False
      from task_step_no_new_round[OF False, of dumps engine bcast] eq Cons.prems(2)
      show ?thesis by (auto split: if_splits)
    qed
  qed
  moreover from Cons.prems(1) have "serialized dumps engine bcast sched ?l'" by simp
  ultimately show ?case using Cons.IH[of ?l'] by simp
qed

text \<open>
  Claim C3, as amended. When several connections invoke generation on the leader, no
  mutex and no queue stands in front of the Broadcast Channel: a handler whose prompt
  has arrived broadcasts its command at its next step, however many rounds are in
  flight, and one more round is in flight afterwards. The broadcast is a call without a
  suspension point, so one step of one connection hands at most one command to the
  channel and two commands are never broadcast at the same time. At most one round
  stays in flight under the schedules that resume a connection which has not started
  only while no round is in flight; the handlers do nothing to keep the event loop to
  such schedules.
\<close>

theorem rounds_not_serialized:
  "(i < length (tasks l) \<and> tasks l ! i = WsWaiting s0 \<and> receive_text s0 = (Inr t, s1) \<and>
    bcast (leader_command (PStr t)) = None \<longrightarrow>
      channel (leader_step dumps engine bcast i l) = channel l @ [leader_command (PStr t)] \<and>
      in_flight (leader_step dumps engine bcast i l) = in_flight l + 1) \<and>
   (i < length (tasks l) \<and> tasks l ! i = HttpWaiting req s \<and> request_text req = Inr tx \<and>
    bcast (leader_command tx) = None \<longrightarrow>
      channel (leader_step dumps engine bcast i l) = channel l @ [leader_command tx] \<and>
      in_flight (leader_step dumps engine bcast i l) = in_flight l + 1) \<and>
   length (channel (leader_step dumps engine bcast i l)) \<le> length (channel l) + 1 \<and>
   (serialized dumps engine bcast sched l \<and> in_flight l \<le> 1 \<longrightarrow>
      in_flight (run_schedule dumps engine bcast sched l) \<le> 1)"
proof (intro conjI impI)
  assume a: "i < length (tasks l) \<and> tasks l ! i = WsWaiting s0 \<and> receive_text s0 = (Inr t, s1) \<and>
    bcast (leader_command (PStr t)) = None"
  obtain evs fin where en: "engine (leader_args (PStr t)) = (evs, fin)"
    by (cases "engine (leader_args (PStr t))")
  from a en obtain s5 where ts: "task_step dumps engine bcast (tasks l ! i)
      = (WsStreaming evs fin s5, [leader_command (PStr t)])"
    by (simp add: Let_def)
  with a show "channel (leader_step dumps engine bcast i l) = channel l @ [leader_command (PStr t)]"
    by (simp add: leader_step_def)
  from a have i: "i < length (tasks l)" by simp
  from in_flight_leader_step[OF i, of dumps engine bcast] ts a
  show "in_flight (leader_step dumps engine bcast i l) = in_flight l + 1" by simp
next
  assume a: "i < length (tasks l) \<and> tasks l ! i = HttpWaiting req s \<and> request_text req = Inr tx \<and>
    bcast (leader_command tx) = None"
  from a obtain s2 where ts: "task_step dumps engine bcast (tasks l ! i)
      = (HttpResponding tx s2, [leader_command tx])"
    by simp
  with a show "channel (leader_step dumps engine bcast i l) = channel l @ [leader_command tx]"
    by (simp add: leader_step_def)
  from a have i: "i < length (tasks l)" by simp
  from in_flight_leader_step[OF i, of dumps engine bcast] ts a
  show "in_flight (leader_step dumps engine bcast i l) = in_flight l + 1" by simp
next
  show "length (channel (leader_step dumps engine bcast i l)) \<le> length (channel l) + 1"
    using task_step_one_command[of dumps engine bcast "tasks l ! i"]
    by (cases "task_step dumps engine bcast (tasks l ! i)") (simp add: leader_step_def)
next
  assume "serialized dumps engine bcast sched l \<and> in_flight l \<le> 1"
  then show "in_flight (run_schedule dumps engine bcast sched l) \<le> 1"
    using serialized_keeps_one_round by blast
qed

text \<open>
  The claim as stated, that at most one round is in flight at any time, fails: the
  first client's handler starts and sends one token, at its \<^verbatim>\<open>sleep(0)\<close> the second
  client's handler starts, and two rounds are in flight, both commands broadcast.
\<close>

theorem two_rounds_in_flight:
  "in_flight (run_schedule word_dumps hello_engine no_failure [0, 0, 1] two_clients) = 2 \<and>
   channel (run_schedule word_dumps hello_engine no_failure [0, 0, 1] two_clients)
     = [leader_command (PStr ''Hello''), leader_command (PStr ''Bye'')]"
  by code_simp

theorem rounds_not_serialized_witness:
  "in_flight (leader_step word_dumps hello_engine no_failure 1
       (run_schedule word_dumps hello_engine no_failure [0, 0] two_clients)) = 2 \<and>
   in_flight (run_schedule word_dumps hello_engine no_failure [0, 0, 0, 0, 0, 1, 1] two_clients) \<le> 1"
proof -
  let ?l = "run_schedule word_dumps hello_engine no_failure [0, 0] two_clients"
  note inst = rounds_not_serialized[where i = 1 and l = ?l
      and ?s0.0 = "ws_connect [RText ''Bye''] None" and t = "''Bye''"
      and ?s1.0 = "ws_connect [] None" and bcast = no_failure and dumps = word_dumps
      and engine = hello_engine]
  have a1: "1 < length (tasks ?l)" by code_simp
  have a2: "tasks ?l ! 1 = WsWaiting (ws_connect [RText ''Bye''] None)" by code_simp
  have a3: "receive_text (ws_connect [RText ''Bye''] None) = (Inr ''Bye'', ws_connect [] None)"
    by (simp add: receive_text_def ws_connect_def)
  have a4: "no_failure (leader_command (PStr ''Bye'')) = None" by (simp add: no_failure_def)
  have a5: "in_flight ?l = 1" by code_simp
  from inst a1 a2 a3 a4 a5
  have x: "in_flight (leader_step word_dumps hello_engine no_failure 1 ?l) = 2" by simp
  note inst2 = rounds_not_serialized[where dumps = word_dumps and engine = hello_engine
      and bcast = no_failure and sched = "[0, 0, 0, 0, 0, 1, 1]" and l = two_clients]
  have b1: "serialized word_dumps hello_engine no_failure [0, 0, 0, 0, 0, 1, 1] two_clients"
    by code_simp
  have b2: "in_flight two_clients \<le> 1" by code_simp
  from inst2 b1 b2
  have y: "in_flight (run_schedule word_dumps hello_engine no_failure [0, 0, 0, 0, 0, 1, 1] two_clients) \<le> 1"
    by blast
  from x y show ?thesis by blast
qed

end
